theory Spec2Isabelle
  imports
    Complex_Main
    "HOL-Library.AList"
    "HOL-Library.Char_ord"
    "HOL-Library.List_Lexorder"
begin


section \<open>Dictionaries and text\<close>

text \<open>
  A Python \<open>dict\<close> keeps its keys in insertion order, and the layout code iterates over
  dictionaries, so a dictionary is an association list: \<open>map_of d k\<close> reads \<open>d[k]\<close> (where
  \<open>None\<close> is the \<open>KeyError\<close>), \<open>AList.update k v d\<close> is \<open>d[k] = v\<close> (the value is replaced
  in place when the key exists, the pair is appended otherwise) and \<open>map fst d\<close> are the
  keys in iteration order.  A function that can raise returns an \<open>option\<close>, where
  \<open>None\<close> stands for the exception (\<open>KeyError\<close>, \<open>ValueError\<close>, \<open>ZeroDivisionError\<close>).

  A character is a code point below 256, so that \<open>str.isspace\<close> and \<open>str.lower\<close> are the
  ones of Latin-1.
\<close>

definition has_key :: "'k \<Rightarrow> ('k \<times> 'v) list \<Rightarrow> bool" where
  "has_key k d = (k \<in> set (map fst d))"

definition isspace :: "char \<Rightarrow> bool" where
  "isspace c =
     (let n = (of_char c :: nat)
      in (9 \<le> n \<and> n \<le> 13) \<or> (28 \<le> n \<and> n \<le> 32) \<or> n = 133 \<or> n = 160)"

definition lower_char :: "char \<Rightarrow> char" where
  "lower_char c =
     (let n = (of_char c :: nat)
      in if (65 \<le> n \<and> n \<le> 90) \<or> (192 \<le> n \<and> n \<le> 222 \<and> n \<noteq> 215)
         then char_of (n + 32) else c)"

definition lower :: "string \<Rightarrow> string" where
  "lower s = map lower_char s"

definition strip :: "string \<Rightarrow> string" where
  "strip s = rev (dropWhile isspace (rev (dropWhile isspace s)))"

section \<open>The triple parser\<close>

subsection \<open>\<open>re.findall(r"(\S+) -- (\S+) --> (.*)", raw_data)\<close>\<close>

text \<open>
  \<open>match_at s\<close> is the match of the pattern that starts at the first character of \<open>s\<close>,
  with the text left after it.  \<open>\S+\<close> is greedy, and it can only be followed by the
  literal, which starts with a space, when it has taken the whole run of non-space
  characters: giving characters back leaves a non-space character where the space has to
  be.  \<open>.*\<close> runs to the end of the line.  \<open>findall\<close> tries every start position from left
  to right and goes on behind each match.
\<close>

definition match_at :: "string \<Rightarrow> ((string \<times> string \<times> string) \<times> string) option" where
  "match_at s =
     (let (a, r1) = (takeWhile (\<lambda>c. \<not> isspace c) s, dropWhile (\<lambda>c. \<not> isspace c) s)
      in if a = [] \<or> take 4 r1 \<noteq> '' -- '' then None
         else
           let r2 = drop 4 r1;
               (b, r3) = (takeWhile (\<lambda>c. \<not> isspace c) r2, dropWhile (\<lambda>c. \<not> isspace c) r2)
           in if b = [] \<or> take 5 r3 \<noteq> '' --> '' then None
              else
                let r4 = drop 5 r3
                in Some ((a, b, takeWhile (\<lambda>c. c \<noteq> CHR 0x0A) r4),
                         dropWhile (\<lambda>c. c \<noteq> CHR 0x0A) r4))"

lemma match_at_shorter: "match_at s = Some (t, r) \<Longrightarrow> length r < length s"
proof -
  assume m: "match_at s = Some (t, r)"
  let ?ns = "\<lambda>c. \<not> isspace c"
  let ?r1 = "dropWhile ?ns s"
  let ?r2 = "drop 4 ?r1"
  let ?r3 = "dropWhile ?ns ?r2"
  let ?r4 = "drop 5 ?r3"
  from m have a: "takeWhile ?ns s \<noteq> []" and r: "r = dropWhile (\<lambda>c. c \<noteq> CHR 0x0A) ?r4"
    by (auto simp: match_at_def Let_def split: if_splits)
  from a have "length ?r1 < length s"
    by (metis append_self_conv2 length_append length_greater_0_conv less_add_same_cancel2
        takeWhile_dropWhile_id)
  moreover have "length r \<le> length ?r4"
    unfolding r by (rule length_dropWhile_le)
  moreover have "length ?r4 \<le> length ?r3" by simp
  moreover have "length ?r3 \<le> length ?r2" by (rule length_dropWhile_le)
  moreover have "length ?r2 \<le> length ?r1" by simp
  ultimately show ?thesis by linarith
qed

function findall :: "string \<Rightarrow> (string \<times> string \<times> string) list" where
  "findall s =
     (if s = [] then []
      else case match_at s of
             Some (t, r) \<Rightarrow> t # findall r
           | None \<Rightarrow> findall (tl s))"
  by pat_completeness auto
termination
  by (relation "measure length") (auto dest: match_at_shorter)

declare findall.simps [simp del]

subsection \<open>\<open>parse_data\<close>\<close>

record item_meta =
  stakeholders :: "string list"
  nxt :: "string list"

type_synonym items = "(string \<times> item_meta) list"
type_synonym data_struct = "(string \<times> items) list"
type_synonym tooltips = "(string \<times> string) list"

text \<open>
  The state of the loop over the triples: \<open>data_struct\<close> (a procedure's value is its
  \<open>"items"\<close> dictionary), \<open>item_to_milestone\<close> and \<open>tooltips\<close>.
\<close>

type_synonym parse_state = "data_struct \<times> (string \<times> string) list \<times> tooltips"

definition ensure_procedure :: "string \<Rightarrow> data_struct \<Rightarrow> data_struct" where
  "ensure_procedure subj ds = (if has_key subj ds then ds else AList.update subj [] ds)"

text \<open>
  The guard and the lookups that the \<open>hasstakeholder\<close> and the \<open>hasnext\<close> branch share:
  \<open>milestone_id = item_to_milestone.get(subj)\<close>, then
  \<open>if milestone_id and subj in data_struct[milestone_id]["items"]\<close>, then the update \<open>f\<close> of
  \<open>data_struct[milestone_id]["items"][subj]\<close> in place.  \<open>data_struct[milestone_id]\<close> raises
  \<open>KeyError\<close> for a missing key; the guard skips both \<open>None\<close> and the empty string.
\<close>

definition update_item ::
  "data_struct \<Rightarrow> (string \<times> string) list \<Rightarrow> string \<Rightarrow> (item_meta \<Rightarrow> item_meta) \<Rightarrow> data_struct option"
where
  "update_item ds i2m subj f =
     (case map_of i2m subj of
        None \<Rightarrow> Some ds
      | Some milestone_id \<Rightarrow>
          (if milestone_id = [] then Some ds
           else (case map_of ds milestone_id of
                   None \<Rightarrow> None
                 | Some its \<Rightarrow>
                     (case map_of its subj of
                        None \<Rightarrow> Some ds
                      | Some meta \<Rightarrow>
                          Some (AList.update milestone_id (AList.update subj (f meta) its) ds)))))"

definition add_stakeholder :: "string \<Rightarrow> item_meta \<Rightarrow> item_meta" where
  "add_stakeholder obj meta =
     (let sh_list = stakeholders meta
      in if obj \<in> set sh_list then meta else meta\<lparr>stakeholders := sh_list @ [obj]\<rparr>)"

definition add_next :: "string \<Rightarrow> item_meta \<Rightarrow> item_meta" where
  "add_next obj meta = meta\<lparr>nxt := nxt meta @ [obj]\<rparr>"

definition add_item :: "string \<Rightarrow> string \<Rightarrow> data_struct \<Rightarrow> data_struct option" where
  "add_item subj obj ds =
     (let ds1 = ensure_procedure subj ds
      in (case map_of ds1 subj of
            None \<Rightarrow> None
          | Some its \<Rightarrow>
              Some (AList.update subj
                      (if has_key obj its then its
                       else AList.update obj \<lparr>stakeholders = [], nxt = []\<rparr> its)
                      ds1)))"

text \<open>The body of \<open>for subj, pred, obj in triples\<close>.\<close>

definition parse_step :: "parse_state \<Rightarrow> string \<times> string \<times> string \<Rightarrow> parse_state option" where
  "parse_step st t =
     (case st of (ds, i2m, tt) \<Rightarrow>
        (case t of (subj0, pred, obj0) \<Rightarrow>
           (let subj = strip subj0; pred_norm = lower (strip pred); obj = strip obj0
            in
              if pred_norm = ''sourcetext'' then Some (ds, i2m, AList.update subj obj tt)
              else if pred_norm = ''type'' \<and> obj = ''Procedure'' then
                Some (ensure_procedure subj ds, i2m, tt)
              else if pred_norm = ''hassequenceditem'' then
                map_option (\<lambda>ds1. (ds1, AList.update obj subj i2m, tt)) (add_item subj obj ds)
              else if pred_norm = ''hasstakeholder'' then
                map_option (\<lambda>ds1. (ds1, i2m, tt)) (update_item ds i2m subj (add_stakeholder obj))
              else if pred_norm = ''hasnext'' then
                map_option (\<lambda>ds1. (ds1, i2m, tt)) (update_item ds i2m subj (add_next obj))
              else Some st)))"

fun parse_triples :: "parse_state \<Rightarrow> (string \<times> string \<times> string) list \<Rightarrow> parse_state option" where
  "parse_triples st [] = Some st"
| "parse_triples st (t # ts) =
     (case parse_step st t of None \<Rightarrow> None | Some st1 \<Rightarrow> parse_triples st1 ts)"

definition fresh_state :: parse_state where
  "fresh_state = ([], [], [])"

text \<open>The fallback loop: an item whose stakeholder list is empty gets \<open>["Unassigned"]\<close>.\<close>

definition fallback_item :: "item_meta \<Rightarrow> item_meta" where
  "fallback_item meta =
     (if stakeholders meta = [] then meta\<lparr>stakeholders := [''Unassigned'']\<rparr> else meta)"

definition fallback :: "data_struct \<Rightarrow> data_struct" where
  "fallback ds =
     map (\<lambda>(milestone_id, its). (milestone_id, map (\<lambda>(item_id, meta). (item_id, fallback_item meta)) its)) ds"

definition parse_data :: "string \<Rightarrow> (data_struct \<times> tooltips) option" where
  "parse_data raw_data =
     (case parse_triples fresh_state (findall raw_data) of
        None \<Rightarrow> None
      | Some (ds, i2m, tt) \<Rightarrow> Some (fallback ds, tt))"

section \<open>The level assigner\<close>

text \<open>
  A \<open>for\<close> loop whose body can raise: the state is threaded through the elements in
  order, and the first exception ends the loop.
\<close>

fun fold_opt :: "('a \<Rightarrow> 's \<Rightarrow> 's option) \<Rightarrow> 'a list \<Rightarrow> 's \<Rightarrow> 's option" where
  "fold_opt f [] s = Some s"
| "fold_opt f (x # xs) s = (case f x s of None \<Rightarrow> None | Some s1 \<Rightarrow> fold_opt f xs s1)"

type_synonym adjacency = "(string \<times> string list) list"
type_synonym int_dict = "(string \<times> int) list"

text \<open>
  The body of the two nested loops that fill \<open>adj\<close> and \<open>in_degree\<close>:
  \<open>if target in adj: adj[item_id].append(target); in_degree[target] += 1\<close>.
\<close>

definition add_edge :: "string \<Rightarrow> string \<Rightarrow> adjacency \<times> int_dict \<Rightarrow> (adjacency \<times> int_dict) option" where
  "add_edge item_id target g =
     (case g of (adj, in_degree) \<Rightarrow>
        (if has_key target adj then
           (case map_of adj item_id of
              None \<Rightarrow> None
            | Some l \<Rightarrow>
                (case map_of in_degree target of
                   None \<Rightarrow> None
                 | Some d \<Rightarrow>
                     Some (AList.update item_id (l @ [target]) adj,
                           AList.update target (d + 1) in_degree)))
         else Some g))"

definition build_graph :: "items \<Rightarrow> (adjacency \<times> int_dict) option" where
  "build_graph its =
     fold_opt (\<lambda>(item_id, meta). fold_opt (add_edge item_id) (nxt meta)) its
       (map (\<lambda>(item_id, meta). (item_id, [])) its, map (\<lambda>(item_id, meta). (item_id, 0)) its)"

text \<open>
  The state of the \<open>while queue\<close> loop.  \<open>dequeued\<close> is not a variable of the source: it
  records the nodes that \<open>queue.popleft()\<close> has returned, in order, so that a statement can
  speak of the nodes that are dequeued.
\<close>

record bfs_state =
  queue :: "string list"
  levels :: int_dict
  in_degree :: int_dict
  dequeued :: "string list"

text \<open>
  The body of \<open>for v in adj[u]\<close>:
  \<open>levels[v] = max(levels[v], levels[u] + 1); in_degree[v] -= 1;
  if in_degree[v] == 0: queue.append(v)\<close>.
\<close>

definition relax :: "string \<Rightarrow> string \<Rightarrow> bfs_state \<Rightarrow> bfs_state option" where
  "relax u v st =
     (case map_of (levels st) v of
        None \<Rightarrow> None
      | Some lv \<Rightarrow>
          (case map_of (levels st) u of
             None \<Rightarrow> None
           | Some lu \<Rightarrow>
               (case map_of (in_degree st) v of
                  None \<Rightarrow> None
                | Some d \<Rightarrow>
                    Some (st\<lparr>levels := AList.update v (max lv (lu + 1)) (levels st),
                             in_degree := AList.update v (d - 1) (in_degree st),
                             queue := (if d - 1 = 0 then queue st @ [v] else queue st)\<rparr>))))"

text \<open>
  The loop ends: the length of the queue plus twice the sum of the positive in-degrees
  falls with every node taken from the queue, and no relaxation raises it.
\<close>

definition potential :: "int_dict \<Rightarrow> nat" where
  "potential d = sum_list (map (\<lambda>(k, n). nat n) d)"

definition bfs_measure :: "bfs_state \<Rightarrow> nat" where
  "bfs_measure st = length (queue st) + 2 * potential (in_degree st)"

lemma potential_update:
  "map_of d v = Some n \<Longrightarrow>
     potential (AList.update v (n - 1) d) + (if 0 < n then 1 else 0) = potential d"
proof (induction d)
  case Nil
  then show ?case by simp
next
  case (Cons p d)
  obtain k m where p: "p = (k, m)" by (cases p) auto
  show ?case
  proof (cases "k = v")
    case True
    with Cons.prems p show ?thesis by (auto simp: potential_def)
  next
    case False
    with Cons.prems p have "map_of d v = Some n" by simp
    from Cons.IH [OF this] False p show ?thesis by (simp add: potential_def)
  qed
qed

lemma relax_measure: "relax u v st = Some st1 \<Longrightarrow> bfs_measure st1 \<le> bfs_measure st"
proof -
  assume r: "relax u v st = Some st1"
  then obtain d where d: "map_of (in_degree st) v = Some d"
    and i: "in_degree st1 = AList.update v (d - 1) (in_degree st)"
    and q: "queue st1 = (if d - 1 = 0 then queue st @ [v] else queue st)"
    by (auto simp: relax_def split: option.splits)
  from potential_update [OF d] i q show ?thesis
    by (auto simp: bfs_measure_def split: if_splits)
qed

lemma fold_relax_measure:
  "fold_opt (relax u) vs st = Some st1 \<Longrightarrow> bfs_measure st1 \<le> bfs_measure st"
proof (induction vs arbitrary: st)
  case Nil
  then show ?case by simp
next
  case (Cons v vs)
  from Cons.prems obtain st2 where a: "relax u v st = Some st2"
    and b: "fold_opt (relax u) vs st2 = Some st1"
    by (auto split: option.splits)
  from relax_measure [OF a] Cons.IH [OF b] show ?case by simp
qed

text \<open>
  \<open>while queue: u = queue.popleft(); for v in adj[u]: ...\<close>.  The function returns the
  state in which the queue is empty.
\<close>

function bfs :: "adjacency \<Rightarrow> bfs_state \<Rightarrow> bfs_state option" where
  "bfs adj st =
     (case queue st of
        [] \<Rightarrow> Some st
      | u # q \<Rightarrow>
          (case map_of adj u of
             None \<Rightarrow> None
           | Some vs \<Rightarrow>
               (case fold_opt (relax u) vs (st\<lparr>queue := q, dequeued := dequeued st @ [u]\<rparr>) of
                  None \<Rightarrow> None
                | Some st1 \<Rightarrow> bfs adj st1)))"
  by pat_completeness auto
termination
proof (relation "measure (\<lambda>(adj, st). bfs_measure st)")
  show "wf (measure (\<lambda>(adj, st). bfs_measure st))" by simp
next
  fix adj :: adjacency and st :: bfs_state and u q vs st1
  assume q: "queue st = u # q"
    and f: "fold_opt (relax u) vs (st\<lparr>queue := q, dequeued := dequeued st @ [u]\<rparr>) = Some st1"
  from fold_relax_measure [OF f] q
  show "((adj, st1), (adj, st)) \<in> measure (\<lambda>(adj, st). bfs_measure st)"
    by (simp add: bfs_measure_def)
qed

declare bfs.simps [simp del]

text \<open>
  \<open>queue = deque([i for i in items if in_degree[i] == 0])\<close>; \<open>in_degree[i]\<close> raises
  \<open>KeyError\<close> for a missing key.
\<close>

definition initial_queue :: "items \<Rightarrow> int_dict \<Rightarrow> string list option" where
  "initial_queue its in_deg =
     fold_opt (\<lambda>i q. case map_of in_deg i of
                        None \<Rightarrow> None
                      | Some d \<Rightarrow> Some (if d = 0 then q @ [i] else q))
       (map fst its) []"

text \<open>
  \<open>calculate_vertical_order\<close> up to the end of its loop, with the whole final state, and
  the function itself, which returns \<open>levels\<close>.
\<close>

definition vertical_order_run :: "items \<Rightarrow> bfs_state option" where
  "vertical_order_run its =
     (case build_graph its of
        None \<Rightarrow> None
      | Some (adj, in_deg) \<Rightarrow>
          (case initial_queue its in_deg of
             None \<Rightarrow> None
           | Some q \<Rightarrow>
               bfs adj \<lparr>queue = q, levels = map (\<lambda>(item_id, meta). (item_id, 0)) its,
                        in_degree = in_deg, dequeued = []\<rparr>))"

definition calculate_vertical_order :: "items \<Rightarrow> int_dict option" where
  "calculate_vertical_order its = map_option levels (vertical_order_run its)"


section \<open>The layout engine and the diagram emitter\<close>

subsection \<open>The document\<close>

text \<open>
  The children of the \<open>root\<close> element, in document order.  An element is kept with the
  attributes that vary: the fixed style strings and the \<open>vertex\<close>, \<open>edge\<close> and \<open>as\<close>
  attributes follow from the kind of the cell, and a cell with a tooltip is the \<open>object\<close>
  element that wraps its \<open>mxCell\<close>.  Numbers are kept as numbers (the source writes
  \<open>str\<close> of them).

  \<^item> \<open>Plain id parent\<close>: the two fixed cells \<open>0\<close> and \<open>1\<close>;
  \<^item> \<open>Pool id label tooltip x y width height\<close>;
  \<^item> \<open>Lane id value parent x y width height\<close>;
  \<^item> \<open>Node id label tooltip fill_color parent x y width height\<close>;
  \<^item> \<open>Edge id source target\<close>.
\<close>

datatype cell =
    Plain string "string option"
  | Pool string string "string option" int int int int
  | Lane string string string int int int int
  | Node string string "string option" string string int int int int
  | Edge string string string

record document =
  diagram_id :: string
  cells :: "cell list"

subsection \<open>Constants\<close>

definition x_start :: int where "x_start = 50"
definition y_start :: int where "y_start = 50"
definition item_width :: int where "item_width = 160"
definition item_height :: int where "item_height = 60"
definition vertical_spacing :: int where "vertical_spacing = 100"
definition h_padding :: int where "h_padding = 20"
definition lane_header_height :: int where "lane_header_height = 30"
definition pool_header_height :: int where "pool_header_height = 40"
definition inter_pool_gap :: int where "inter_pool_gap = 100"

definition MULTI_COLORS :: "string list" where
  "MULTI_COLORS =
     [''#fff2cc'', ''#d5e8d4'', ''#ffe6cc'', ''#e1d5e7'', ''#dae8fc'',
      ''#f8cecc'', ''#fff9c4'', ''#c8e6c9'', ''#ffe0b2'', ''#e8daef'']"

subsection \<open>Labels\<close>

definition replace_underscores :: "string \<Rightarrow> string" where
  "replace_underscores s = map (\<lambda>c. if c = CHR ''_'' then CHR '' '' else c) s"

text \<open>\<open>item_id.split(":")[-1]\<close>: the text after the last colon.\<close>

definition last_segment :: "string \<Rightarrow> string" where
  "last_segment s = rev (takeWhile (\<lambda>c. c \<noteq> CHR '':'') (rev s))"

subsection \<open>Lanes and their widths\<close>

text \<open>
  \<open>all_stakeholders\<close>: the stakeholders of all items, each once, in the order of their
  first occurrence, then \<open>sorted\<close> (strings compare by code points, lexicographically).
\<close>

definition add_unique :: "string \<Rightarrow> string list \<Rightarrow> string list" where
  "add_unique sh acc = (if sh \<in> set acc then acc else acc @ [sh])"

definition all_stakeholders :: "items \<Rightarrow> string list" where
  "all_stakeholders its =
     sort (fold (\<lambda>(item_id, meta). fold add_unique (stakeholders meta)) its [])"

text \<open>
  \<open>lane_level_counts\<close> and \<open>lane_level_placed\<close> are
  \<open>defaultdict(lambda: defaultdict(int))\<close>: a missing entry reads as 0.
\<close>

type_synonym nested_counts = "(string \<times> (int \<times> int) list) list"

definition get_count :: "nested_counts \<Rightarrow> string \<Rightarrow> int \<Rightarrow> int" where
  "get_count d sh lvl =
     (case map_of d sh of
        None \<Rightarrow> 0
      | Some inner \<Rightarrow> (case map_of inner lvl of None \<Rightarrow> 0 | Some c \<Rightarrow> c))"

definition bump_count :: "string \<Rightarrow> int \<Rightarrow> nested_counts \<Rightarrow> nested_counts" where
  "bump_count sh lvl d =
     AList.update sh
       (AList.update lvl (get_count d sh lvl + 1)
          (case map_of d sh of None \<Rightarrow> [] | Some inner \<Rightarrow> inner))
       d"

text \<open>
  \<open>for item_id, item_meta in items.items(): lvl = item_levels[item_id];
  for sh in item_meta["stakeholders"]: lane_level_counts[sh][lvl] += 1\<close>.
\<close>

definition count_item :: "int_dict \<Rightarrow> string \<times> item_meta \<Rightarrow> nested_counts \<Rightarrow> nested_counts option" where
  "count_item item_levels e counts =
     (case e of (item_id, item_meta) \<Rightarrow>
        (case map_of item_levels item_id of
           None \<Rightarrow> None
         | Some lvl \<Rightarrow> Some (fold (\<lambda>sh. bump_count sh lvl) (stakeholders item_meta) counts)))"

definition lane_level_counts :: "int_dict \<Rightarrow> items \<Rightarrow> nested_counts option" where
  "lane_level_counts item_levels its = fold_opt (count_item item_levels) its []"

text \<open>\<open>max(lane_level_counts[sh].values()) if lane_level_counts[sh] else 1\<close>.\<close>

definition max_nodes :: "nested_counts \<Rightarrow> string \<Rightarrow> int" where
  "max_nodes counts sh =
     (case map_of counts sh of
        None \<Rightarrow> 1
      | Some inner \<Rightarrow> (if inner = [] then 1 else Max (set (map snd inner))))"

definition lane_widths :: "nested_counts \<Rightarrow> string list \<Rightarrow> int_dict" where
  "lane_widths counts shs =
     map (\<lambda>sh. (sh, max_nodes counts sh * (item_width + h_padding) + h_padding)) shs"

text \<open>\<open>max(item_levels.values())\<close> raises \<open>ValueError\<close> for an empty dictionary.\<close>

definition max_value :: "int_dict \<Rightarrow> int option" where
  "max_value d = (if d = [] then None else Some (Max (set (map snd d))))"

subsection \<open>The state of the emitter\<close>

text \<open>
  \<open>uuid.uuid4()\<close> draws a fresh random identifier.  The model takes the sequence of the
  identifiers drawn as a parameter \<open>U\<close>: the \<open>n\<close>-th call returns \<open>U n\<close>, and the state
  counts the calls.
\<close>

text \<open>\<open>root_cells\<close> are the children appended to the \<open>root\<close> element so far.\<close>

record layout_state =
  root_cells :: "cell list"
  id_map :: "(string \<times> (string \<times> string) list) list"
  multi_item_color :: "(string \<times> string) list"
  color_counter :: nat
  current_x :: int
  next_uuid :: nat

subsection \<open>Lane cells\<close>

text \<open>
  The state of \<open>for sh_name in all_stakeholders\<close>: the cells, \<open>lane_ids\<close>,
  \<open>acc_lane_x\<close> and the number of identifiers drawn.
\<close>

type_synonym lane_state = "cell list \<times> (string \<times> string) list \<times> int \<times> nat"

definition add_lane ::
  "(nat \<Rightarrow> string) \<Rightarrow> int_dict \<Rightarrow> string \<Rightarrow> int \<Rightarrow> string \<Rightarrow> lane_state \<Rightarrow> lane_state option"
where
  "add_lane U widths pool_id pool_height sh_name ls =
     (case ls of (cs, lane_ids, acc_lane_x, n) \<Rightarrow>
        (case map_of widths sh_name of
           None \<Rightarrow> None
         | Some lw \<Rightarrow>
             Some (cs @ [Lane (U n) sh_name pool_id acc_lane_x pool_header_height lw
                           (pool_height - pool_header_height)],
                   AList.update sh_name (U n) lane_ids, acc_lane_x + lw, Suc n)))"

subsection \<open>Node cells\<close>

text \<open>
  \<open>int(x_pos)\<close> rounds towards zero.  \<open>slot_width = lw / total\<close> is a float division in
  the source; the model computes with exact rationals.
\<close>

definition trunc :: "rat \<Rightarrow> int" where
  "trunc q = (if 0 \<le> q then \<lfloor>q\<rfloor> else \<lceil>q\<rceil>)"

definition node_x :: "int \<Rightarrow> int \<Rightarrow> int \<Rightarrow> int" where
  "node_x lw total_n slot_index =
     (let slot_width = of_int lw / of_int total_n
      in trunc (slot_width * of_int slot_index + (slot_width - of_int item_width) / 2))"

definition node_y :: "int \<Rightarrow> int" where
  "node_y lvl = lane_header_height + 10 + lvl * vertical_spacing"

text \<open>
  The state of the loop over the items of one procedure: the emitter's state and
  \<open>lane_level_placed\<close>.
\<close>

type_synonym node_state = "layout_state \<times> nested_counts"

text \<open>
  The body of \<open>for sh_name in item_meta["stakeholders"]\<close>.  The lookups
  \<open>lane_widths[sh_name]\<close>, \<open>id_map[item_id]\<close>, \<open>multi_item_color[item_id]\<close> and
  \<open>lane_ids[sh_name]\<close> raise \<open>KeyError\<close> for a missing key, and \<open>lw / total\<close> raises
  \<open>ZeroDivisionError\<close>.
\<close>

definition node_copy ::
  "(nat \<Rightarrow> string) \<Rightarrow> int_dict \<Rightarrow> (string \<times> string) list \<Rightarrow> nested_counts \<Rightarrow>
   string \<Rightarrow> int \<Rightarrow> string \<Rightarrow> string option \<Rightarrow> bool \<Rightarrow> string \<Rightarrow> node_state \<Rightarrow> node_state option"
where
  "node_copy U widths lane_ids counts item_id lvl clean_name tooltip is_multi sh_name ns =
     (case ns of (st, placed) \<Rightarrow>
        (case map_of widths sh_name of
           None \<Rightarrow> None
         | Some lw \<Rightarrow>
             (let slot_index = get_count placed sh_name lvl;
                  placed1 = bump_count sh_name lvl placed;
                  total_n = get_count counts sh_name lvl
              in if total_n = 0 then None
                 else
                   (let node_uuid = U (next_uuid st)
                    in (case map_of (id_map st) item_id of
                          None \<Rightarrow> None
                        | Some copies \<Rightarrow>
                            (case (if is_multi then map_of (multi_item_color st) item_id
                                   else Some ''#ffffff'') of
                               None \<Rightarrow> None
                             | Some fill_color \<Rightarrow>
                                 (case map_of lane_ids sh_name of
                                    None \<Rightarrow> None
                                  | Some lane_id \<Rightarrow>
                                      Some (st\<lparr>root_cells := root_cells st @
                                                 [Node node_uuid clean_name tooltip fill_color lane_id
                                                    (node_x lw total_n slot_index) (node_y lvl)
                                                    item_width item_height],
                                               id_map := AList.update item_id
                                                 (AList.update sh_name node_uuid copies) (id_map st),
                                               next_uuid := Suc (next_uuid st)\<rparr>,
                                            placed1))))))))"

text \<open>
  The body of \<open>for item_id, item_meta in items.items()\<close> of the node placement.
  \<open>if tooltip:\<close> takes neither \<open>None\<close> nor the empty string.
\<close>

definition place_item ::
  "(nat \<Rightarrow> string) \<Rightarrow> tooltips \<Rightarrow> int_dict \<Rightarrow> int_dict \<Rightarrow> (string \<times> string) list \<Rightarrow>
   nested_counts \<Rightarrow> string \<times> item_meta \<Rightarrow> node_state \<Rightarrow> node_state option"
where
  "place_item U tt item_levels widths lane_ids counts e ns =
     (case e of (item_id, item_meta) \<Rightarrow>
        (case ns of (st, placed) \<Rightarrow>
           (case map_of item_levels item_id of
              None \<Rightarrow> None
            | Some lvl \<Rightarrow>
                (let clean_name = replace_underscores (last_segment item_id);
                     tooltip = (case map_of tt item_id of
                                  None \<Rightarrow> None
                                | Some t \<Rightarrow> (if t = [] then None else Some t));
                     is_multi = (1 < length (stakeholders item_meta));
                     fresh_color = (is_multi \<and> \<not> has_key item_id (multi_item_color st));
                     st1 = st\<lparr>multi_item_color :=
                                 (if fresh_color
                                  then AList.update item_id
                                         (MULTI_COLORS ! (color_counter st mod length MULTI_COLORS))
                                         (multi_item_color st)
                                  else multi_item_color st),
                               color_counter :=
                                 (if fresh_color then Suc (color_counter st) else color_counter st),
                               id_map :=
                                 (if has_key item_id (id_map st) then id_map st
                                  else AList.update item_id [] (id_map st))\<rparr>
                 in fold_opt
                      (node_copy U widths lane_ids counts item_id lvl clean_name tooltip is_multi)
                      (stakeholders item_meta) (st1, placed)))))"

subsection \<open>One procedure\<close>

text \<open>
  The body of the first \<open>for milestone_id, content in structured_data.items()\<close>: a
  procedure without items is skipped; otherwise its pool cell, its lane cells and its
  node cells are appended.
\<close>

definition layout_procedure ::
  "(nat \<Rightarrow> string) \<Rightarrow> tooltips \<Rightarrow> string \<times> items \<Rightarrow> layout_state \<Rightarrow> layout_state option"
where
  "layout_procedure U tt p st =
     (case p of (milestone_id, its) \<Rightarrow>
        (if its = [] then Some st
         else
           (case calculate_vertical_order its of
              None \<Rightarrow> None
            | Some item_levels \<Rightarrow>
                (case max_value item_levels of
                   None \<Rightarrow> None
                 | Some max_level \<Rightarrow>
                     (case lane_level_counts item_levels its of
                        None \<Rightarrow> None
                      | Some counts \<Rightarrow>
                          (let shs = all_stakeholders its;
                               widths = lane_widths counts shs;
                               pool_width = sum_list (map snd widths);
                               pool_height = (max_level + 1) * vertical_spacing
                                               + lane_header_height + 60;
                               pool_id = U (next_uuid st);
                               pool = Pool pool_id (replace_underscores milestone_id)
                                        (map_of tt milestone_id)
                                        (current_x st) y_start pool_width pool_height
                           in (case fold_opt (add_lane U widths pool_id pool_height) shs
                                       (root_cells st @ [pool], [], 0, Suc (next_uuid st)) of
                                 None \<Rightarrow> None
                               | Some (cs, lane_ids, acc_lane_x, n) \<Rightarrow>
                                   (case fold_opt (place_item U tt item_levels widths lane_ids counts)
                                           its (st\<lparr>root_cells := cs, next_uuid := n\<rparr>, []) of
                                      None \<Rightarrow> None
                                    | Some (st1, placed) \<Rightarrow>
                                        Some (st1\<lparr>current_x :=
                                                   current_x st + pool_width + inter_pool_gap\<rparr>)))))))))"

subsection \<open>Edges\<close>

text \<open>
  The second pass.  For one entry \<open>target_id\<close> of the \<open>next\<close> list of \<open>item_id\<close> the
  loops over \<open>src_copies.values()\<close> and \<open>tgt_copies.values()\<close> emit one edge for each
  pair, unless one of the two identifiers is not in \<open>id_map\<close>.
\<close>

definition edge_pairs ::
  "(string \<times> (string \<times> string) list) list \<Rightarrow> string \<Rightarrow> string \<Rightarrow> (string \<times> string) list"
where
  "edge_pairs idm item_id target_id =
     (case map_of idm item_id of
        None \<Rightarrow> []
      | Some src_copies \<Rightarrow>
          (case map_of idm target_id of
             None \<Rightarrow> []
           | Some tgt_copies \<Rightarrow>
               concat (map (\<lambda>uuid_src. map (\<lambda>uuid_tgt. (uuid_src, uuid_tgt)) (map snd tgt_copies))
                         (map snd src_copies))))"

text \<open>
  The entries of all \<open>next\<close> lists, in the order of the three nested loops:
  procedures, items, targets.
\<close>

definition next_refs :: "data_struct \<Rightarrow> (string \<times> string) list" where
  "next_refs sd =
     concat (map (\<lambda>(milestone_id, its).
                    concat (map (\<lambda>(item_id, item_meta).
                                   map (\<lambda>target_id. (item_id, target_id)) (nxt item_meta)) its))
               sd)"

definition all_edge_pairs ::
  "(string \<times> (string \<times> string) list) list \<Rightarrow> data_struct \<Rightarrow> (string \<times> string) list"
where
  "all_edge_pairs idm sd = concat (map (\<lambda>(item_id, target_id). edge_pairs idm item_id target_id) (next_refs sd))"

text \<open>Each edge takes the next identifier for its \<open>id\<close>.\<close>

definition emit_edges ::
  "(nat \<Rightarrow> string) \<Rightarrow> data_struct \<Rightarrow> layout_state \<Rightarrow> layout_state"
where
  "emit_edges U sd st =
     (let ps = all_edge_pairs (id_map st) sd
      in st\<lparr>root_cells := root_cells st @
                map (\<lambda>(k, (uuid_src, uuid_tgt)). Edge (U (next_uuid st + k)) uuid_src uuid_tgt)
                  (enumerate 0 ps),
              next_uuid := next_uuid st + length ps\<rparr>)"

subsection \<open>\<open>create_drawio_xml\<close>\<close>

text \<open>
  The first identifier drawn is the \<open>id\<close> of the \<open>diagram\<close> element.
  \<open>create_drawio_run\<close> returns the document together with the final state of the emitter,
  \<open>create_drawio_xml\<close> the document that is written to the file.
\<close>

definition initial_layout :: layout_state where
  "initial_layout =
     \<lparr>root_cells = [Plain ''0'' None, Plain ''1'' (Some ''0'')], id_map = [],
      multi_item_color = [], color_counter = 0, current_x = x_start, next_uuid = 1\<rparr>"

definition create_drawio_run ::
  "(nat \<Rightarrow> string) \<Rightarrow> data_struct \<Rightarrow> tooltips \<Rightarrow> (document \<times> layout_state) option"
where
  "create_drawio_run U structured_data tt =
     (case fold_opt (layout_procedure U tt) structured_data initial_layout of
        None \<Rightarrow> None
      | Some st \<Rightarrow>
          (let st1 = emit_edges U structured_data st
           in Some (\<lparr>diagram_id = U 0, cells = root_cells st1\<rparr>, st1)))"

definition create_drawio_xml ::
  "(nat \<Rightarrow> string) \<Rightarrow> data_struct \<Rightarrow> tooltips \<Rightarrow> document option"
where
  "create_drawio_xml U structured_data tt = map_option fst (create_drawio_run U structured_data tt)"


section \<open>Facts about dictionaries\<close>

lemma set_update_cases:
  "p \<in> set (AList.update k v al) \<Longrightarrow> p \<in> set al \<or> p = (k, v)"
  by (induction al) (auto split: if_splits)

lemma has_key_update: "has_key k' (AList.update k v al) = (k' = k \<or> has_key k' al)"
  using dom_update [of k v al] by (auto simp: has_key_def)

lemma has_key_map_of: "has_key k d = (map_of d k \<noteq> None)"
  by (simp add: has_key_def map_of_eq_None_iff)


section \<open>Properties of the triple parser\<close>

lemma has_key_ensure_procedure:
  "has_key m (ensure_procedure subj ds) = (m = subj \<or> has_key m ds)"
  by (auto simp: ensure_procedure_def has_key_update)

definition owners_known :: "parse_state \<Rightarrow> bool" where
  "owners_known st =
     (case st of (ds, i2m, tt) \<Rightarrow> \<forall>i m. map_of i2m i = Some m \<longrightarrow> has_key m ds)"

lemma add_item_total:
  "\<exists>ds1. add_item subj obj ds = Some ds1 \<and> (\<forall>m. has_key m ds1 = (m = subj \<or> has_key m ds))"
proof -
  have "has_key subj (ensure_procedure subj ds)"
    by (simp add: has_key_ensure_procedure)
  then obtain its where "map_of (ensure_procedure subj ds) subj = Some its"
    by (auto simp: has_key_map_of)
  then show ?thesis
    by (auto simp: add_item_def Let_def has_key_update has_key_ensure_procedure)
qed

lemma update_item_total:
  assumes "\<forall>i m. map_of i2m i = Some m \<longrightarrow> has_key m ds"
  shows "\<exists>ds1. update_item ds i2m subj f = Some ds1 \<and> (\<forall>m. has_key m ds1 = has_key m ds)"
proof (cases "map_of i2m subj")
  case None
  then show ?thesis by (simp add: update_item_def)
next
  case (Some m)
  with assms have "has_key m ds" by simp
  then obtain its where "map_of ds m = Some its"
    by (auto simp: has_key_map_of)
  with Some \<open>has_key m ds\<close> show ?thesis
    by (auto simp: update_item_def has_key_update split: option.splits)
qed

lemma parse_step_total:
  assumes "owners_known st"
  shows "\<exists>st1. parse_step st t = Some st1 \<and> owners_known st1"
proof -
  obtain ds i2m tt where st: "st = (ds, i2m, tt)" by (cases st) auto
  obtain subj0 pred obj0 where t: "t = (subj0, pred, obj0)" by (cases t) auto
  from assms st have ok: "\<forall>i m. map_of i2m i = Some m \<longrightarrow> has_key m ds"
    by (simp add: owners_known_def)
  obtain ds1 where a: "add_item (strip subj0) (strip obj0) ds = Some ds1"
    and ak: "\<forall>m. has_key m ds1 = (m = strip subj0 \<or> has_key m ds)"
    using add_item_total by blast
  obtain ds2 where b: "update_item ds i2m (strip subj0) (add_stakeholder (strip obj0)) = Some ds2"
    and bk: "\<forall>m. has_key m ds2 = has_key m ds"
    using update_item_total [OF ok] by blast
  obtain ds3 where c: "update_item ds i2m (strip subj0) (add_next (strip obj0)) = Some ds3"
    and ck: "\<forall>m. has_key m ds3 = has_key m ds"
    using update_item_total [OF ok] by blast
  show ?thesis
    using ok a ak b bk c ck
    by (auto simp: st t parse_step_def Let_def owners_known_def has_key_ensure_procedure
        update_conv')
qed

lemma parse_triples_total:
  "owners_known st \<Longrightarrow> \<exists>st1. parse_triples st ts = Some st1 \<and> owners_known st1"
proof (induction ts arbitrary: st)
  case Nil
  then show ?case by simp
next
  case (Cons t ts)
  from parse_step_total [OF Cons.prems] obtain st1
    where "parse_step st t = Some st1" "owners_known st1" by blast
  with Cons.IH [of st1] show ?case by simp
qed

lemma owners_known_fresh: "owners_known fresh_state"
  by (simp add: owners_known_def fresh_state_def)

lemma parse_triples_append:
  "parse_triples st (xs @ ys) =
     (case parse_triples st xs of None \<Rightarrow> None | Some st1 \<Rightarrow> parse_triples st1 ys)"
  by (induction xs arbitrary: st) (auto split: option.splits)

text \<open>
  Claim C7.  \<open>parse_data\<close> returns a pair of a graph and the tooltips for every input
  text, whatever its lines are: no lookup raises.  The reason is the invariant of the loop:
  after any number of triples, every procedure recorded in \<open>item_to_milestone\<close> is a key
  of \<open>data_struct\<close>, so that \<open>data_struct[milestone_id]\<close> finds its entry.
\<close>

theorem parse_data_total:
  "(\<exists>g tt. parse_data raw_data = Some (g, tt)) \<and>
   (\<forall>n. \<exists>ds i2m tt.
      parse_triples fresh_state (take n (findall raw_data)) = Some (ds, i2m, tt) \<and>
      (\<forall>i m. map_of i2m i = Some m \<longrightarrow> map_of ds m \<noteq> None))"
proof
  from parse_triples_total [OF owners_known_fresh, of "findall raw_data"]
  show "\<exists>g tt. parse_data raw_data = Some (g, tt)"
    by (auto simp: parse_data_def)
next
  show "\<forall>n. \<exists>ds i2m tt.
      parse_triples fresh_state (take n (findall raw_data)) = Some (ds, i2m, tt) \<and>
      (\<forall>i m. map_of i2m i = Some m \<longrightarrow> map_of ds m \<noteq> None)"
  proof
    fix n
    from parse_triples_total [OF owners_known_fresh, of "take n (findall raw_data)"]
    obtain st1 where r: "parse_triples fresh_state (take n (findall raw_data)) = Some st1"
      and k: "owners_known st1" by blast
    obtain ds i2m tt where "st1 = (ds, i2m, tt)" by (cases st1) auto
    with r k show "\<exists>ds i2m tt.
      parse_triples fresh_state (take n (findall raw_data)) = Some (ds, i2m, tt) \<and>
      (\<forall>i m. map_of i2m i = Some m \<longrightarrow> map_of ds m \<noteq> None)"
      by (auto simp: owners_known_def has_key_map_of)
  qed
qed

lemma parse_data_example:
  "parse_data ''junk\<newline>A -- hasNext --> B\<newline>P -- hasSequencedItem --> A'' =
     Some ([(''P'', [(''A'', \<lparr>stakeholders = [''Unassigned''], nxt = []\<rparr>)])], [])"
  by code_simp

theorem parse_data_total_witness:
  "(\<exists>g tt. parse_data ''junk\<newline>A -- hasNext --> B\<newline>P -- hasSequencedItem --> A'' = Some (g, tt)) \<and>
   parse_data ''junk\<newline>A -- hasNext --> B\<newline>P -- hasSequencedItem --> A'' =
     Some ([(''P'', [(''A'', \<lparr>stakeholders = [''Unassigned''], nxt = []\<rparr>)])], [])"
  using parse_data_total [of "''junk\<newline>A -- hasNext --> B\<newline>P -- hasSequencedItem --> A''"]
    parse_data_example
  by blast

definition names_item :: "string \<times> string \<times> string \<Rightarrow> string \<Rightarrow> bool" where
  "names_item t i =
     (case t of (subj, pred, obj) \<Rightarrow> lower (strip pred) = ''hassequenceditem'' \<and> strip obj = i)"

definition gives_stakeholder :: "string \<times> string \<times> string \<Rightarrow> string \<Rightarrow> bool" where
  "gives_stakeholder t i =
     (case t of (subj, pred, obj) \<Rightarrow> lower (strip pred) = ''hasstakeholder'' \<and> strip subj = i)"

lemma ensure_procedure_cases:
  "(m, its) \<in> set (ensure_procedure subj ds) \<Longrightarrow> (m, its) \<in> set ds \<or> its = []"
  by (auto simp: ensure_procedure_def dest: set_update_cases split: if_splits)

lemma add_item_cases:
  assumes "add_item subj obj ds = Some ds1" "(m, its1) \<in> set ds1" "(i, meta1) \<in> set its1"
  shows "(\<exists>its. (m, its) \<in> set ds \<and> (i, meta1) \<in> set its) \<or>
         (i = obj \<and> meta1 = \<lparr>stakeholders = [], nxt = []\<rparr>)"
proof -
  let ?ds0 = "ensure_procedure subj ds"
  from assms(1) obtain its where l: "map_of ?ds0 subj = Some its"
    and ds1: "ds1 = AList.update subj
                (if has_key obj its then its
                 else AList.update obj \<lparr>stakeholders = [], nxt = []\<rparr> its) ?ds0"
    by (auto simp: add_item_def Let_def split: option.splits)
  from l have in0: "(subj, its) \<in> set ?ds0" by (rule map_of_SomeD)
  from assms(2) ds1 consider (old) "(m, its1) \<in> set ?ds0"
    | (new) "its1 = (if has_key obj its then its
                 else AList.update obj \<lparr>stakeholders = [], nxt = []\<rparr> its)" "m = subj"
    by (auto dest: set_update_cases)
  then show ?thesis
  proof cases
    case old
    with assms(3) ensure_procedure_cases [of m its1 subj ds] show ?thesis by auto
  next
    case new
    with assms(3) have "(i, meta1) \<in> set its \<or> (i, meta1) = (obj, \<lparr>stakeholders = [], nxt = []\<rparr>)"
      by (auto dest: set_update_cases split: if_splits)
    with in0 new ensure_procedure_cases [of subj its subj ds] show ?thesis by auto
  qed
qed

lemma update_item_cases:
  assumes "update_item ds i2m subj f = Some ds1" "(m, its1) \<in> set ds1" "(i, meta1) \<in> set its1"
  shows "\<exists>its. (m, its) \<in> set ds \<and>
           ((i, meta1) \<in> set its \<or> (i = subj \<and> (\<exists>meta. (i, meta) \<in> set its \<and> meta1 = f meta)))"
proof (cases "ds1 = ds")
  case True
  with assms show ?thesis by auto
next
  case False
  with assms(1) obtain mid its meta where l: "map_of ds mid = Some its"
    and l2: "map_of its subj = Some meta"
    and ds1: "ds1 = AList.update mid (AList.update subj (f meta) its) ds"
    by (auto simp: update_item_def split: option.splits if_splits)
  from l have a: "(mid, its) \<in> set ds" by (rule map_of_SomeD)
  from l2 have b: "(subj, meta) \<in> set its" by (rule map_of_SomeD)
  from assms(2) ds1 have "(m, its1) \<in> set ds \<or> (m = mid \<and> its1 = AList.update subj (f meta) its)"
    by (auto dest: set_update_cases)
  then show ?thesis
  proof
    assume "(m, its1) \<in> set ds"
    with assms(3) show ?thesis by auto
  next
    assume c: "m = mid \<and> its1 = AList.update subj (f meta) its"
    with assms(3) have "(i, meta1) \<in> set its \<or> (i, meta1) = (subj, f meta)"
      by (auto dest: set_update_cases)
    with a b c show ?thesis by auto
  qed
qed

definition stakeholders_given :: "(string \<times> string \<times> string) list \<Rightarrow> parse_state \<Rightarrow> bool" where
  "stakeholders_given ts st =
     (case st of (ds, i2m, tt) \<Rightarrow>
        \<forall>m its i meta. (m, its) \<in> set ds \<and> (i, meta) \<in> set its \<and> stakeholders meta \<noteq> []
           \<longrightarrow> (\<exists>t \<in> set ts. gives_stakeholder t i))"

lemma parse_step_stakeholders_given:
  assumes "stakeholders_given ts st" "parse_step st t = Some st1"
  shows "stakeholders_given (ts @ [t]) st1"
proof -
  obtain ds i2m tt where st: "st = (ds, i2m, tt)" by (cases st) auto
  obtain ds1 i2m1 tt1 where st1: "st1 = (ds1, i2m1, tt1)" by (cases st1) auto
  obtain subj0 pred obj0 where t: "t = (subj0, pred, obj0)" by (cases t) auto
  have old: "\<And>m its i meta. (m, its) \<in> set ds \<Longrightarrow> (i, meta) \<in> set its \<Longrightarrow>
      stakeholders meta \<noteq> [] \<Longrightarrow> \<exists>t \<in> set ts. gives_stakeholder t i"
    using assms(1) unfolding st stakeholders_given_def by blast
  have "\<exists>t \<in> set (ts @ [t]). gives_stakeholder t i"
    if a: "(m, its1) \<in> set ds1" and b: "(i, meta1) \<in> set its1" and c: "stakeholders meta1 \<noteq> []"
    for m its1 i meta1
  proof -
    let ?p = "lower (strip pred)"
    consider (same) "ds1 = ds"
      | (proc) "ds1 = ensure_procedure (strip subj0) ds"
      | (item) "add_item (strip subj0) (strip obj0) ds = Some ds1"
      | (sh) "?p = ''hasstakeholder''"
             "update_item ds i2m (strip subj0) (add_stakeholder (strip obj0)) = Some ds1"
      | (nx) "update_item ds i2m (strip subj0) (add_next (strip obj0)) = Some ds1"
      using assms(2) unfolding st st1 t parse_step_def
      by (auto simp: Let_def split: if_splits)
    then show ?thesis
    proof cases
      case same
      with a b c old show ?thesis by auto
    next
      case proc
      with a b c old ensure_procedure_cases [of m its1 "strip subj0" ds] show ?thesis by auto
    next
      case item
      from add_item_cases [OF item a b] c old show ?thesis by auto
    next
      case sh
      from update_item_cases [OF sh(2) a b] obtain its where i: "(m, its) \<in> set ds"
        and d: "(i, meta1) \<in> set its \<or> i = strip subj0" by blast
      from d show ?thesis
      proof
        assume "(i, meta1) \<in> set its"
        with i c old show ?thesis by auto
      next
        assume "i = strip subj0"
        with sh(1) have "gives_stakeholder t i" by (simp add: t gives_stakeholder_def)
        then show ?thesis by auto
      qed
    next
      case nx
      from update_item_cases [OF nx a b] obtain its where i: "(m, its) \<in> set ds"
        and d: "(i, meta1) \<in> set its \<or> (\<exists>meta. (i, meta) \<in> set its \<and> meta1 = add_next (strip obj0) meta)"
        by blast
      from d show ?thesis
      proof
        assume "(i, meta1) \<in> set its"
        with i c old show ?thesis by auto
      next
        assume "\<exists>meta. (i, meta) \<in> set its \<and> meta1 = add_next (strip obj0) meta"
        then obtain meta where e: "(i, meta) \<in> set its" "meta1 = add_next (strip obj0) meta"
          by blast
        with c have "stakeholders meta \<noteq> []" by (simp add: add_next_def)
        with i e old show ?thesis by auto
      qed
    qed
  qed
  then show ?thesis unfolding st1 stakeholders_given_def by (simp only: split) blast
qed

lemma parse_triples_stakeholders_given:
  "parse_triples fresh_state ts = Some st \<Longrightarrow> stakeholders_given ts st"
proof (induction ts arbitrary: st rule: rev_induct)
  case Nil
  then show ?case by (auto simp: stakeholders_given_def fresh_state_def)
next
  case (snoc t ts)
  from snoc.prems obtain st0 where a: "parse_triples fresh_state ts = Some st0"
    and b: "parse_step st0 t = Some st"
    by (auto simp: parse_triples_append split: option.splits)
  from parse_step_stakeholders_given [OF snoc.IH [OF a] b] show ?case .
qed

lemma fallback_cases:
  assumes "(m, its1) \<in> set (fallback ds)" "(i, meta1) \<in> set its1"
  shows "\<exists>its meta. (m, its) \<in> set ds \<and> (i, meta) \<in> set its \<and> meta1 = fallback_item meta"
  using assms by (fastforce simp: fallback_def)

text \<open>
  Claim C9.  In the graph that \<open>parse_data\<close> returns, no item has an empty stakeholder
  list, and an item that is the subject of no \<open>hasStakeholder\<close> triple of the text has
  the list \<open>["Unassigned"]\<close>.
\<close>

theorem stakeholders_never_empty:
  assumes "parse_data raw_data = Some (g, tt)" "(m, its) \<in> set g" "(i, meta) \<in> set its"
  shows "stakeholders meta \<noteq> [] \<and>
         ((\<forall>t \<in> set (findall raw_data). \<not> gives_stakeholder t i) \<longrightarrow>
            stakeholders meta = [''Unassigned''])"
proof -
  from assms(1) obtain ds i2m where r: "parse_triples fresh_state (findall raw_data) = Some (ds, i2m, tt)"
    and g: "g = fallback ds"
    by (auto simp: parse_data_def split: option.splits)
  from fallback_cases [OF assms(2) [unfolded g] assms(3)] obtain its0 meta0
    where a: "(m, its0) \<in> set ds" "(i, meta0) \<in> set its0" "meta = fallback_item meta0" by blast
  from parse_triples_stakeholders_given [OF r] a(1,2)
  have "stakeholders meta0 \<noteq> [] \<Longrightarrow> \<exists>t \<in> set (findall raw_data). gives_stakeholder t i"
    unfolding stakeholders_given_def by blast
  with a(3) show ?thesis by (auto simp: fallback_item_def)
qed

lemma findall_example:
  "findall ''junk\<newline>A -- hasNext --> B\<newline>P -- hasSequencedItem --> A'' =
     [(''A'', ''hasNext'', ''B''), (''P'', ''hasSequencedItem'', ''A'')]"
  by code_simp

theorem stakeholders_never_empty_witness:
  "parse_data ''junk\<newline>A -- hasNext --> B\<newline>P -- hasSequencedItem --> A'' =
     Some ([(''P'', [(''A'', \<lparr>stakeholders = [''Unassigned''], nxt = []\<rparr>)])], []) \<and>
   \<not> gives_stakeholder (''A'', ''hasNext'', ''B'') ''A'' \<and>
   \<not> gives_stakeholder (''P'', ''hasSequencedItem'', ''A'') ''A'' \<and>
   stakeholders \<lparr>stakeholders = [''Unassigned''], nxt = []\<rparr> \<noteq> [] \<and>
   stakeholders \<lparr>stakeholders = [''Unassigned''], nxt = []\<rparr> = [''Unassigned'']"
proof -
  have a: "\<not> gives_stakeholder (''A'', ''hasNext'', ''B'') ''A''"
    unfolding gives_stakeholder_def by code_simp
  have b: "\<not> gives_stakeholder (''P'', ''hasSequencedItem'', ''A'') ''A''"
    unfolding gives_stakeholder_def by code_simp
  from a b have h: "\<forall>t \<in> set (findall ''junk\<newline>A -- hasNext --> B\<newline>P -- hasSequencedItem --> A'').
      \<not> gives_stakeholder t ''A''"
    by (simp add: findall_example)
  from stakeholders_never_empty [OF parse_data_example, of "''P''" _ "''A''"
      "\<lparr>stakeholders = [''Unassigned''], nxt = []\<rparr>"] h a b parse_data_example
  show ?thesis by simp
qed

definition owners_named :: "(string \<times> string \<times> string) list \<Rightarrow> parse_state \<Rightarrow> bool" where
  "owners_named ts st =
     (case st of (ds, i2m, tt) \<Rightarrow>
        \<forall>i. map_of i2m i \<noteq> None \<longrightarrow> (\<exists>t \<in> set ts. names_item t i))"

lemma update_item_no_owner:
  "map_of i2m subj = None \<Longrightarrow> update_item ds i2m subj f = Some ds"
  by (simp add: update_item_def)

lemma parse_step_owners_named:
  assumes "owners_named ts st" "parse_step st t = Some st1"
  shows "owners_named (ts @ [t]) st1"
proof -
  obtain ds i2m tt where st: "st = (ds, i2m, tt)" by (cases st) auto
  obtain ds1 i2m1 tt1 where st1: "st1 = (ds1, i2m1, tt1)" by (cases st1) auto
  obtain subj0 pred obj0 where t: "t = (subj0, pred, obj0)" by (cases t) auto
  from assms(2) have "i2m1 = i2m \<or>
      (lower (strip pred) = ''hassequenceditem'' \<and> i2m1 = AList.update (strip obj0) (strip subj0) i2m)"
    unfolding st st1 t parse_step_def by (auto simp: Let_def split: if_splits)
  then have c: "i2m1 = i2m \<or>
      (names_item t (strip obj0) \<and> i2m1 = AList.update (strip obj0) (strip subj0) i2m)"
    by (simp add: t names_item_def)
  have old: "\<And>i. map_of i2m i \<noteq> None \<Longrightarrow> \<exists>t \<in> set ts. names_item t i"
    using assms(1) unfolding st owners_named_def by blast
  have "\<exists>t \<in> set (ts @ [t]). names_item t i" if a: "map_of i2m1 i \<noteq> None" for i
  proof (cases "map_of i2m i \<noteq> None")
    case True
    with old [of i] show ?thesis by auto
  next
    case False
    with a c have "names_item t (strip obj0)" "i = strip obj0"
      by (auto simp: update_conv' split: if_splits)
    then show ?thesis by auto
  qed
  then show ?thesis unfolding st1 owners_named_def by blast
qed

lemma parse_triples_owners_named:
  "parse_triples fresh_state ts = Some st \<Longrightarrow> owners_named ts st"
proof (induction ts arbitrary: st rule: rev_induct)
  case Nil
  then show ?case by (auto simp: owners_named_def fresh_state_def)
next
  case (snoc t ts)
  from snoc.prems obtain st0 where a: "parse_triples fresh_state ts = Some st0"
    and b: "parse_step st0 t = Some st"
    by (auto simp: parse_triples_append split: option.splits)
  from parse_step_owners_named [OF snoc.IH [OF a] b] show ?case .
qed

text \<open>
  Claim C8.  A \<open>hasStakeholder\<close> or \<open>hasNext\<close> triple whose subject no earlier
  \<open>hasSequencedItem\<close> triple of the stream has named as its item changes nothing: the loop
  reaches the triple without an error, the step returns the state it was given (graph,
  ownership map and tooltips), and the whole stream gives the same result with the triple
  as without it.
\<close>

theorem unowned_reference_dropped:
  assumes "lower (strip pred) = ''hasstakeholder'' \<or> lower (strip pred) = ''hasnext''"
    and "\<forall>t \<in> set pre. \<not> names_item t (strip subj)"
  shows "\<exists>st. parse_triples fresh_state pre = Some st \<and>
              parse_step st (subj, pred, obj) = Some st \<and>
              parse_triples fresh_state (pre @ (subj, pred, obj) # post) =
                parse_triples fresh_state (pre @ post)"
proof -
  from parse_triples_total [OF owners_known_fresh, of pre] obtain st
    where r: "parse_triples fresh_state pre = Some st" by blast
  obtain ds i2m tt where st: "st = (ds, i2m, tt)" by (cases st) auto
  from parse_triples_owners_named [OF r] assms(2) have n: "map_of i2m (strip subj) = None"
    unfolding st owners_named_def by auto
  from assms(1) have s: "parse_step st (subj, pred, obj) = Some st"
    unfolding st parse_step_def by (auto simp: Let_def update_item_no_owner [OF n])
  with r show ?thesis by (simp add: parse_triples_append)
qed

theorem unowned_reference_dropped_witness:
  "(lower (strip ''hasStakeholder'') = ''hasstakeholder'') \<and>
   \<not> names_item (''P'', ''type'', ''Procedure'') (strip ''A'') \<and>
   (\<exists>st. parse_triples fresh_state [(''P'', ''type'', ''Procedure'')] = Some st \<and>
         parse_step st (''A'', ''hasStakeholder'', ''ATC'') = Some st \<and>
         parse_triples fresh_state
           ([(''P'', ''type'', ''Procedure'')] @ (''A'', ''hasStakeholder'', ''ATC'') #
              [(''P'', ''hasSequencedItem'', ''A'')]) =
         parse_triples fresh_state
           ([(''P'', ''type'', ''Procedure'')] @ [(''P'', ''hasSequencedItem'', ''A'')]))"
proof -
  have a: "lower (strip ''hasStakeholder'') = ''hasstakeholder''"
    by code_simp
  have b: "\<not> names_item (''P'', ''type'', ''Procedure'') (strip ''A'')"
    unfolding names_item_def by code_simp
  from b have c: "\<forall>t \<in> set [(''P'', ''type'', ''Procedure'')]. \<not> names_item t (strip ''A'')"
    by simp
  from unowned_reference_dropped [OF disjI1 [OF a] c] a b show ?thesis by blast
qed

section \<open>Properties of the level assigner\<close>

text \<open>
  The graph that the loop works on: \<open>edges A\<close> are the pairs of \<open>adj\<close>, and
  \<open>pending A D v\<close> counts, with their multiplicity, the edges into \<open>v\<close> that start at a
  node outside \<open>D\<close>.  The invariant \<open>bfs_inv\<close> of the loop speaks of the nodes dequeued so
  far (\<open>D\<close>), of the successors \<open>P u\<close> of each dequeued node that have been relaxed, and of
  the successors \<open>r\<close> of the current node that are still to be relaxed.
\<close>

definition pending :: "adjacency \<Rightarrow> string set \<Rightarrow> string \<Rightarrow> nat" where
  "pending A D v = sum_list (map (\<lambda>(u, l). if u \<in> D then 0 else count_list l v) A)"

definition graph_ok :: "string set \<Rightarrow> adjacency \<Rightarrow> bool" where
  "graph_ok K A = (distinct (map fst A) \<and> fst ` set A = K \<and> (\<forall>(u, l) \<in> set A. set l \<subseteq> K))"

definition edges :: "adjacency \<Rightarrow> (string \<times> string) set" where
  "edges A = {(u, v). \<exists>l. (u, l) \<in> set A \<and> v \<in> set l}"

definition rank_in :: "bfs_state \<Rightarrow> string \<Rightarrow> int" where
  "rank_in st v = (case map_of (levels st) v of None \<Rightarrow> 0 | Some n \<Rightarrow> n)"

definition bfs_inv ::
  "string set \<Rightarrow> adjacency \<Rightarrow> (string \<Rightarrow> string list) \<Rightarrow> string list \<Rightarrow> bfs_state \<Rightarrow> bool"
where
  "bfs_inv K A P r st =
     (fst ` set (levels st) = K \<and> fst ` set (in_degree st) = K \<and>
      distinct (queue st @ dequeued st) \<and> set (queue st) \<union> set (dequeued st) \<subseteq> K \<and>
      (\<forall>v \<in> K. map_of (in_degree st) v =
                  Some (int (pending A (set (dequeued st)) v + count_list r v))) \<and>
      (\<forall>v \<in> K. (v \<in> set (queue st) \<union> set (dequeued st)) =
                  (pending A (set (dequeued st)) v + count_list r v = 0)) \<and>
      (\<forall>u \<in> set (dequeued st). \<forall>v \<in> set (P u). rank_in st u < rank_in st v) \<and>
      (\<forall>v \<in> K. 0 \<le> rank_in st v) \<and>
      (\<forall>v \<in> K. (\<forall>u \<in> set (dequeued st). v \<notin> set (P u)) \<longrightarrow> rank_in st v = 0) \<and>
      (\<forall>v \<in> set (queue st) \<union> set (dequeued st). (v, v) \<notin> (edges A)\<^sup>+))"

lemma bfs_invD:
  assumes "bfs_inv K A P r st"
  shows "fst ` set (levels st) = K"
    and "fst ` set (in_degree st) = K"
    and "distinct (queue st @ dequeued st)"
    and "set (queue st) \<union> set (dequeued st) \<subseteq> K"
    and "\<And>w. w \<in> K \<Longrightarrow> map_of (in_degree st) w =
                  Some (int (pending A (set (dequeued st)) w + count_list r w))"
    and "\<And>w. w \<in> K \<Longrightarrow> (w \<in> set (queue st) \<union> set (dequeued st)) =
                  (pending A (set (dequeued st)) w + count_list r w = 0)"
    and "\<And>u w. u \<in> set (dequeued st) \<Longrightarrow> w \<in> set (P u) \<Longrightarrow> rank_in st u < rank_in st w"
    and "\<And>w. w \<in> K \<Longrightarrow> 0 \<le> rank_in st w"
    and "\<And>w. w \<in> K \<Longrightarrow> (\<forall>u \<in> set (dequeued st). w \<notin> set (P u)) \<Longrightarrow> rank_in st w = 0"
    and "\<And>w. w \<in> set (queue st) \<union> set (dequeued st) \<Longrightarrow> (w, w) \<notin> (edges A)\<^sup>+"
proof -
  from assms have a: "fst ` set (levels st) = K \<and> fst ` set (in_degree st) = K \<and>
      distinct (queue st @ dequeued st) \<and> set (queue st) \<union> set (dequeued st) \<subseteq> K \<and>
      (\<forall>v \<in> K. map_of (in_degree st) v =
                  Some (int (pending A (set (dequeued st)) v + count_list r v))) \<and>
      (\<forall>v \<in> K. (v \<in> set (queue st) \<union> set (dequeued st)) =
                  (pending A (set (dequeued st)) v + count_list r v = 0)) \<and>
      (\<forall>u \<in> set (dequeued st). \<forall>v \<in> set (P u). rank_in st u < rank_in st v) \<and>
      (\<forall>v \<in> K. 0 \<le> rank_in st v) \<and>
      (\<forall>v \<in> K. (\<forall>u \<in> set (dequeued st). v \<notin> set (P u)) \<longrightarrow> rank_in st v = 0) \<and>
      (\<forall>v \<in> set (queue st) \<union> set (dequeued st). (v, v) \<notin> (edges A)\<^sup>+)"
    unfolding bfs_inv_def .
  show "fst ` set (levels st) = K" using a by (elim conjE)
  show "fst ` set (in_degree st) = K" using a by (elim conjE)
  show "distinct (queue st @ dequeued st)" using a by (elim conjE)
  show "set (queue st) \<union> set (dequeued st) \<subseteq> K" using a by (elim conjE)
  show "\<And>w. w \<in> K \<Longrightarrow> map_of (in_degree st) w =
                  Some (int (pending A (set (dequeued st)) w + count_list r w))"
    using a by (elim conjE) (rule bspec)
  show "\<And>w. w \<in> K \<Longrightarrow> (w \<in> set (queue st) \<union> set (dequeued st)) =
                  (pending A (set (dequeued st)) w + count_list r w = 0)"
    using a by (elim conjE) (rule bspec)
  have "\<forall>u \<in> set (dequeued st). \<forall>v \<in> set (P u). rank_in st u < rank_in st v"
    using a by (elim conjE)
  then show "\<And>u w. u \<in> set (dequeued st) \<Longrightarrow> w \<in> set (P u) \<Longrightarrow> rank_in st u < rank_in st w"
    by blast
  show "\<And>w. w \<in> K \<Longrightarrow> 0 \<le> rank_in st w" using a by (elim conjE) (rule bspec)
  have "\<forall>v \<in> K. (\<forall>u \<in> set (dequeued st). v \<notin> set (P u)) \<longrightarrow> rank_in st v = 0"
    using a by (elim conjE)
  then show "\<And>w. w \<in> K \<Longrightarrow> (\<forall>u \<in> set (dequeued st). w \<notin> set (P u)) \<Longrightarrow> rank_in st w = 0"
    by blast
  show "\<And>w. w \<in> set (queue st) \<union> set (dequeued st) \<Longrightarrow> (w, w) \<notin> (edges A)\<^sup>+"
    using a by (elim conjE) (rule bspec)
qed

lemma pending_insert_notin:
  "u \<notin> fst ` set A \<Longrightarrow> pending A (insert u D) v = pending A D v"
  by (induction A) (auto simp: pending_def)

lemma pending_insert:
  "distinct (map fst A) \<Longrightarrow> (u, vs) \<in> set A \<Longrightarrow> u \<notin> D \<Longrightarrow>
     pending A (insert u D) v + count_list vs v = pending A D v"
proof (induction A)
  case Nil
  then show ?case by simp
next
  case (Cons p A)
  obtain k l where p: "p = (k, l)" by (cases p) auto
  show ?case
  proof (cases "k = u")
    case True
    with Cons.prems p have "l = vs" "u \<notin> fst ` set A" by force+
    with True p Cons.prems(3) pending_insert_notin [of u A D v] show ?thesis
      by (simp add: pending_def)
  next
    case False
    with Cons.prems p have "(u, vs) \<in> set A" "distinct (map fst A)" by auto
    from Cons.IH [OF this(2) this(1) Cons.prems(3)] False p show ?thesis
      by (simp add: pending_def)
  qed
qed

lemma pending_zero:
  "pending A D v = 0 \<Longrightarrow> (u, v) \<in> edges A \<Longrightarrow> u \<in> D"
proof -
  assume z: "pending A D v = 0" and e: "(u, v) \<in> edges A"
  from e obtain l where l: "(u, l) \<in> set A" "v \<in> set l" by (auto simp: edges_def)
  from z l(1) have "(if u \<in> D then 0 else count_list l v) = 0"
    by (force simp: pending_def)
  with l(2) show "u \<in> D" by (auto split: if_splits simp: count_list_0_iff)
qed

lemma cycle_pred:
  "(v, v) \<in> R\<^sup>+ \<Longrightarrow> \<exists>p. (p, v) \<in> R \<and> (p, p) \<in> R\<^sup>+"
proof -
  assume "(v, v) \<in> R\<^sup>+"
  then obtain p where "(v, p) \<in> R\<^sup>*" "(p, v) \<in> R" by (auto dest: tranclD2)
  then show ?thesis by (auto intro: rtrancl_into_trancl2)
qed

lemma rank_in_lookup: "v \<in> fst ` set (levels st) \<Longrightarrow> map_of (levels st) v = Some (rank_in st v)"
  by (auto simp: rank_in_def map_of_eq_None_iff split: option.splits)

lemma relax_inv:
  assumes inv: "bfs_inv K A P (v # r) st" and cur: "cur \<in> set (dequeued st)" and v: "v \<in> K"
  shows "\<exists>st1. relax cur v st = Some st1 \<and> bfs_inv K A (P(cur := P cur @ [v])) r st1 \<and>
               dequeued st1 = dequeued st"
proof -
  let ?D = "set (dequeued st)"
  define n where "n = pending A ?D v + count_list r v"
  define lv where "lv = max (rank_in st v) (rank_in st cur + 1)"
  define st1 where "st1 = st\<lparr>levels := AList.update v lv (levels st),
                  in_degree := AList.update v (int n) (in_degree st),
                  queue := (if n = 0 then queue st @ [v] else queue st)\<rparr>"
  have f1: "levels st1 = AList.update v lv (levels st)"
    and f2: "in_degree st1 = AList.update v (int n) (in_degree st)"
    and f3: "queue st1 = (if n = 0 then queue st @ [v] else queue st)"
    and f4: "dequeued st1 = dequeued st"
    by (simp_all add: st1_def)
  note kl = bfs_invD(1) [OF inv] and ki = bfs_invD(2) [OF inv] and dist = bfs_invD(3) [OF inv]
    and sub = bfs_invD(4) [OF inv] and deg = bfs_invD(5) [OF inv] and zero = bfs_invD(6) [OF inv]
    and ord = bfs_invD(7) [OF inv] and nonneg = bfs_invD(8) [OF inv]
    and fresh = bfs_invD(9) [OF inv] and acyc = bfs_invD(10) [OF inv]
  from cur sub have curK: "cur \<in> K" by auto
  from zero [OF v] have vnew: "v \<notin> set (queue st)" "v \<notin> ?D" by auto
  with cur have neq: "cur \<noteq> v" by auto
  have dv: "map_of (in_degree st) v = Some (int n + 1)"
    using deg [OF v] by (simp add: n_def)
  have r: "relax cur v st = Some st1"
    using rank_in_lookup [of v st] rank_in_lookup [of cur st] v curK kl dv
    by (simp add: relax_def st1_def lv_def)
  have l1: "rank_in st1 w = (if w = v then lv else rank_in st w)" for w
    by (simp add: rank_in_def f1 update_conv')
  have lv_ge: "rank_in st v \<le> lv" "rank_in st cur < lv" by (simp_all add: lv_def)
  have "bfs_inv K A (P(cur := P cur @ [v])) r st1"
    unfolding bfs_inv_def f4
  proof (intro conjI ballI impI)
    show "fst ` set (levels st1) = K" using kl v by (auto simp: f1 dom_update)
    show "fst ` set (in_degree st1) = K" using ki v by (auto simp: f2 dom_update)
    show "distinct (queue st1 @ dequeued st)" using dist vnew by (auto simp: f3)
    show "set (queue st1) \<union> set (dequeued st) \<subseteq> K" using sub v by (auto simp: f3)
  next
    fix w assume w: "w \<in> K"
    show "map_of (in_degree st1) w = Some (int (pending A ?D w + count_list r w))"
      using deg [OF w] by (auto simp: f2 update_conv' n_def)
    show "(w \<in> set (queue st1) \<union> ?D) = (pending A ?D w + count_list r w = 0)"
    proof (cases "w = v")
      case True
      with vnew show ?thesis by (auto simp: f3 n_def)
    next
      case False
      with zero [OF w] show ?thesis by (auto simp: f3)
    qed
    show "0 \<le> rank_in st1 w" using nonneg [OF w] nonneg [OF v] lv_ge by (auto simp: l1)
  next
    fix u w assume u: "u \<in> ?D" and w: "w \<in> set ((P(cur := P cur @ [v])) u)"
    from u vnew have uv: "u \<noteq> v" by auto
    show "rank_in st1 u < rank_in st1 w"
    proof (cases "u = cur \<and> w = v")
      case True
      then show ?thesis using neq lv_ge by (simp add: l1)
    next
      case False
      with w have "w \<in> set (P u)" by (auto split: if_splits)
      with u ord [of u w] have "rank_in st u < rank_in st w" by simp
      with uv lv_ge show ?thesis by (auto simp: l1)
    qed
  next
    fix w assume w: "w \<in> K"
      and n: "\<forall>u \<in> ?D. w \<notin> set ((P(cur := P cur @ [v])) u)"
    from n cur have wv: "w \<noteq> v" by auto
    from n have "\<forall>u \<in> ?D. w \<notin> set (P u)" by (auto split: if_splits)
    from fresh [OF w this] wv show "rank_in st1 w = 0" by (simp add: l1)
  next
    fix w assume w: "w \<in> set (queue st1) \<union> ?D"
    show "(w, w) \<notin> (edges A)\<^sup>+"
    proof (cases "w \<in> set (queue st) \<union> ?D")
      case True
      then show ?thesis by (rule acyc)
    next
      case False
      with w have wv: "w = v" and z: "pending A ?D v = 0"
        by (auto simp: f3 n_def split: if_splits)
      show ?thesis
      proof
        assume "(w, w) \<in> (edges A)\<^sup>+"
        from cycle_pred [OF this] obtain p where p: "(p, v) \<in> edges A" "(p, p) \<in> (edges A)\<^sup>+"
          using wv by auto
        from pending_zero [OF z p(1)] have "p \<in> ?D" .
        with acyc [of p] p(2) show False by simp
      qed
    qed
  qed
  with r f4 show ?thesis by auto
qed

definition adj_list :: "adjacency \<Rightarrow> string \<Rightarrow> string list" where
  "adj_list A u = (case map_of A u of None \<Rightarrow> [] | Some l \<Rightarrow> l)"

lemma fold_relax_inv:
  assumes "bfs_inv K A P r st" "cur \<in> set (dequeued st)" "set r \<subseteq> K"
  shows "\<exists>st1. fold_opt (relax cur) r st = Some st1 \<and> bfs_inv K A (P(cur := P cur @ r)) [] st1 \<and>
               dequeued st1 = dequeued st"
  using assms
proof (induction r arbitrary: P st)
  case Nil
  then show ?case by simp
next
  case (Cons v r)
  from Cons.prems(3) have v: "v \<in> K" and r: "set r \<subseteq> K" by auto
  from relax_inv [OF Cons.prems(1,2) v] obtain st1 where a: "relax cur v st = Some st1"
    and b: "bfs_inv K A (P(cur := P cur @ [v])) r st1" and c: "dequeued st1 = dequeued st"
    by blast
  from Cons.prems(2) c have "cur \<in> set (dequeued st1)" by simp
  from Cons.IH [OF b this r] obtain st2 where d: "fold_opt (relax cur) r st1 = Some st2"
    and e: "bfs_inv K A ((P(cur := P cur @ [v]))(cur := (P(cur := P cur @ [v])) cur @ r)) [] st2"
    and f: "dequeued st2 = dequeued st1" by blast
  from e have g: "bfs_inv K A (P(cur := P cur @ v # r)) [] st2" by simp
  from a d have h: "fold_opt (relax cur) (v # r) st = Some st2" by simp
  from c f have "dequeued st2 = dequeued st" by simp
  with g h show ?case by blast
qed

lemma dequeue_inv:
  assumes ok: "graph_ok K A" and inv: "bfs_inv K A (adj_list A) [] st" and q: "queue st = u # q"
  shows "\<exists>vs. map_of A u = Some vs \<and> set vs \<subseteq> K \<and>
           bfs_inv K A ((adj_list A)(u := [])) vs (st\<lparr>queue := q, dequeued := dequeued st @ [u]\<rparr>)"
proof -
  let ?D = "set (dequeued st)"
  define st1 where "st1 = st\<lparr>queue := q, dequeued := dequeued st @ [u]\<rparr>"
  have f1: "levels st1 = levels st" and f2: "in_degree st1 = in_degree st"
    and f3: "queue st1 = q" and f4: "dequeued st1 = dequeued st @ [u]"
    by (simp_all add: st1_def)
  note kl = bfs_invD(1) [OF inv] and ki = bfs_invD(2) [OF inv] and dist = bfs_invD(3) [OF inv]
    and sub = bfs_invD(4) [OF inv] and deg = bfs_invD(5) [OF inv] and zero = bfs_invD(6) [OF inv]
    and ord = bfs_invD(7) [OF inv] and nonneg = bfs_invD(8) [OF inv]
    and fresh = bfs_invD(9) [OF inv] and acyc = bfs_invD(10) [OF inv]
  from ok have dA: "distinct (map fst A)" and kA: "fst ` set A = K"
    and tA: "\<And>u l. (u, l) \<in> set A \<Longrightarrow> set l \<subseteq> K"
    unfolding graph_ok_def by auto
  from q sub have uK: "u \<in> K" by auto
  from q dist have uD: "u \<notin> ?D" and uq: "u \<notin> set q" and dq: "distinct q" by auto
  from uK kA obtain vs where vs: "(u, vs) \<in> set A" by force
  with dA have m: "map_of A u = Some vs" by simp
  have l1: "rank_in st1 w = rank_in st w" for w by (simp add: rank_in_def f1)
  have pend: "pending A (insert u ?D) w + count_list vs w = pending A ?D w" for w
    by (rule pending_insert [OF dA vs uD])
  have "bfs_inv K A ((adj_list A)(u := [])) vs st1"
    unfolding bfs_inv_def
  proof (intro conjI ballI impI)
    show "fst ` set (levels st1) = K" using kl by (simp add: f1)
    show "fst ` set (in_degree st1) = K" using ki by (simp add: f2)
    show "distinct (queue st1 @ dequeued st1)" using dist q by (auto simp: f3 f4)
    show "set (queue st1) \<union> set (dequeued st1) \<subseteq> K" using sub q by (auto simp: f3 f4)
  next
    fix w assume w: "w \<in> K"
    show "map_of (in_degree st1) w =
            Some (int (pending A (set (dequeued st1)) w + count_list vs w))"
      using deg [OF w] pend [of w] by (simp add: f2 f4)
    show "(w \<in> set (queue st1) \<union> set (dequeued st1)) =
            (pending A (set (dequeued st1)) w + count_list vs w = 0)"
      using zero [OF w] pend [of w] q by (auto simp: f3 f4)
    show "0 \<le> rank_in st1 w" using nonneg [OF w] by (simp add: l1)
  next
    fix x w assume x: "x \<in> set (dequeued st1)" and w: "w \<in> set (((adj_list A)(u := [])) x)"
    from w have "x \<noteq> u" by (auto split: if_splits)
    with x w have "x \<in> ?D" "w \<in> set (adj_list A x)" by (auto simp: f4)
    from ord [OF this] show "rank_in st1 x < rank_in st1 w" by (simp add: l1)
  next
    fix w assume w: "w \<in> K"
      and n: "\<forall>x \<in> set (dequeued st1). w \<notin> set (((adj_list A)(u := [])) x)"
    have "\<forall>x \<in> ?D. w \<notin> set (adj_list A x)"
    proof
      fix x assume x: "x \<in> ?D"
      with uD have "x \<noteq> u" by auto
      with n x show "w \<notin> set (adj_list A x)" by (auto simp: f4)
    qed
    from fresh [OF w this] show "rank_in st1 w = 0" by (simp add: l1)
  next
    fix w assume "w \<in> set (queue st1) \<union> set (dequeued st1)"
    with q have "w \<in> set (queue st) \<union> ?D" by (auto simp: f3 f4)
    then show "(w, w) \<notin> (edges A)\<^sup>+" by (rule acyc)
  qed
  with m tA [OF vs] show ?thesis by (auto simp: st1_def)
qed

lemma bfs_inv_bfs:
  assumes "graph_ok K A" "bfs_inv K A (adj_list A) [] st"
  shows "\<exists>st1. bfs A st = Some st1 \<and> bfs_inv K A (adj_list A) [] st1 \<and> queue st1 = []"
  using assms
proof (induction A st rule: bfs.induct)
  case (1 A st)
  show ?case
  proof (cases "queue st")
    case Nil
    with "1.prems" show ?thesis by (simp add: bfs.simps)
  next
    case (Cons u q)
    let ?st0 = "st\<lparr>queue := q, dequeued := dequeued st @ [u]\<rparr>"
    from dequeue_inv [OF "1.prems" Cons] obtain vs where m: "map_of A u = Some vs"
      and s: "set vs \<subseteq> K" and i: "bfs_inv K A ((adj_list A)(u := [])) vs ?st0" by blast
    have "u \<in> set (dequeued ?st0)" by simp
    from fold_relax_inv [OF i this s] obtain st1
      where f: "fold_opt (relax u) vs ?st0 = Some st1"
        and j: "bfs_inv K A (((adj_list A)(u := []))(u := ((adj_list A)(u := [])) u @ vs)) [] st1"
      by blast
    from m have "((adj_list A)(u := []))(u := ((adj_list A)(u := [])) u @ vs) = adj_list A"
      by (auto simp: adj_list_def)
    with j have "bfs_inv K A (adj_list A) [] st1" by simp
    from "1.IH" [OF Cons m f "1.prems"(1) this] obtain st2
      where "bfs A st1 = Some st2" "bfs_inv K A (adj_list A) [] st2" "queue st2 = []" by blast
    with Cons m f show ?thesis by (simp add: bfs.simps [of A st])
  qed
qed

definition build_ok :: "string set \<Rightarrow> adjacency \<times> int_dict \<Rightarrow> bool" where
  "build_ok K g =
     (case g of (A, I) \<Rightarrow>
        graph_ok K A \<and> fst ` set I = K \<and> (\<forall>v \<in> K. map_of I v = Some (int (pending A {} v))))"

lemma pending_update:
  "map_of A u = Some l \<Longrightarrow>
     pending (AList.update u (l @ [t]) A) {} v = pending A {} v + (if v = t then 1 else 0)"
proof (induction A)
  case Nil
  then show ?case by simp
next
  case (Cons p A)
  obtain k m where p: "p = (k, m)" by (cases p) auto
  show ?case
  proof (cases "k = u")
    case True
    with Cons.prems p show ?thesis by (auto simp: pending_def)
  next
    case False
    with Cons.prems p have "map_of A u = Some l" by simp
    from Cons.IH [OF this] False p show ?thesis by (simp add: pending_def)
  qed
qed

lemma add_edge_ok:
  assumes ok: "build_ok K (A, I)" and l: "map_of A u = Some l"
  shows "\<exists>A1 I1. add_edge u t (A, I) = Some (A1, I1) \<and> build_ok K (A1, I1) \<and>
           map_of A1 u = Some (l @ filter (\<lambda>t. t \<in> K) [t]) \<and>
           (\<forall>w. w \<noteq> u \<longrightarrow> map_of A1 w = map_of A w)"
proof (cases "t \<in> K")
  case False
  with ok have "\<not> has_key t A" by (auto simp: build_ok_def graph_ok_def has_key_def)
  with ok l False show ?thesis by (simp add: add_edge_def)
next
  case True
  from ok have dA: "distinct (map fst A)" and kA: "fst ` set A = K"
    and tA: "\<And>u l. (u, l) \<in> set A \<Longrightarrow> set l \<subseteq> K"
    and kI: "fst ` set I = K"
    and deg: "\<And>v. v \<in> K \<Longrightarrow> map_of I v = Some (int (pending A {} v))"
    unfolding build_ok_def graph_ok_def by auto
  let ?A1 = "AList.update u (l @ [t]) A"
  let ?I1 = "AList.update t (int (pending A {} t) + 1) I"
  from True kA have hk: "has_key t A" by (simp add: has_key_def)
  from l have ul: "(u, l) \<in> set A" by (rule map_of_SomeD)
  then have uK: "u \<in> K" using kA by force
  have e: "add_edge u t (A, I) = Some (?A1, ?I1)"
    using hk l deg [OF True] by (simp add: add_edge_def)
  have g: "graph_ok K ?A1"
    unfolding graph_ok_def
  proof (intro conjI)
    show "distinct (map fst ?A1)" using dA by (rule distinct_update)
    show "fst ` set ?A1 = K" using kA uK by (auto simp: dom_update)
    show "\<forall>(x, m) \<in> set ?A1. set m \<subseteq> K"
    proof (clarify)
      fix x m y assume "(x, m) \<in> set ?A1" "y \<in> set m"
      then have "(x, m) \<in> set A \<or> m = l @ [t]" by (auto dest: set_update_cases)
      with tA [of x m] tA [OF ul] True \<open>y \<in> set m\<close> show "y \<in> K" by auto
    qed
  qed
  have "build_ok K (?A1, ?I1)"
    unfolding build_ok_def
    using g kI True deg pending_update [OF l, of t]
    by (auto simp: dom_update update_conv')
  with e True show ?thesis by (auto simp: update_conv')
qed

lemma fold_add_edge_ok:
  assumes "build_ok K (A, I)" "map_of A u = Some l"
  shows "\<exists>A1 I1. fold_opt (add_edge u) ts (A, I) = Some (A1, I1) \<and> build_ok K (A1, I1) \<and>
           map_of A1 u = Some (l @ filter (\<lambda>t. t \<in> K) ts) \<and>
           (\<forall>w. w \<noteq> u \<longrightarrow> map_of A1 w = map_of A w)"
  using assms
proof (induction ts arbitrary: A I l)
  case Nil
  then show ?case by simp
next
  case (Cons t ts)
  from add_edge_ok [OF Cons.prems] obtain A1 I1
    where a: "add_edge u t (A, I) = Some (A1, I1)" and b: "build_ok K (A1, I1)"
      and c: "map_of A1 u = Some (l @ filter (\<lambda>t. t \<in> K) [t])"
      and d: "\<forall>w. w \<noteq> u \<longrightarrow> map_of A1 w = map_of A w" by blast
  from Cons.IH [OF b c] obtain A2 I2
    where e: "fold_opt (add_edge u) ts (A1, I1) = Some (A2, I2)" and f: "build_ok K (A2, I2)"
      and g: "map_of A2 u = Some ((l @ filter (\<lambda>t. t \<in> K) [t]) @ filter (\<lambda>t. t \<in> K) ts)"
      and h: "\<forall>w. w \<noteq> u \<longrightarrow> map_of A2 w = map_of A1 w" by blast
  from a e have "fold_opt (add_edge u) (t # ts) (A, I) = Some (A2, I2)" by simp
  moreover from g have "map_of A2 u = Some (l @ filter (\<lambda>t. t \<in> K) (t # ts))" by simp
  moreover from d h have "\<forall>w. w \<noteq> u \<longrightarrow> map_of A2 w = map_of A w" by simp
  ultimately show ?case using f by blast
qed

lemma fold_items_ok:
  assumes "build_ok K (A, I)" "distinct (map fst rest)"
    and "\<forall>(u, meta) \<in> set rest. map_of A u = Some []"
  shows "\<exists>A1 I1. fold_opt (\<lambda>(item_id, meta). fold_opt (add_edge item_id) (nxt meta)) rest (A, I)
             = Some (A1, I1) \<and> build_ok K (A1, I1) \<and>
           (\<forall>(u, meta) \<in> set rest. map_of A1 u = Some (filter (\<lambda>t. t \<in> K) (nxt meta))) \<and>
           (\<forall>w. w \<notin> fst ` set rest \<longrightarrow> map_of A1 w = map_of A w)"
  using assms
proof (induction rest arbitrary: A I)
  case Nil
  then show ?case by simp
next
  case (Cons p rest)
  obtain u meta where p: "p = (u, meta)" by (cases p) auto
  from Cons.prems p have u0: "map_of A u = Some []" and un: "u \<notin> fst ` set rest"
    and dr: "distinct (map fst rest)" by auto
  from fold_add_edge_ok [OF Cons.prems(1) u0, of "nxt meta"] obtain A1 I1
    where a: "fold_opt (add_edge u) (nxt meta) (A, I) = Some (A1, I1)"
      and b: "build_ok K (A1, I1)"
      and c: "map_of A1 u = Some (filter (\<lambda>t. t \<in> K) (nxt meta))"
      and d: "\<forall>w. w \<noteq> u \<longrightarrow> map_of A1 w = map_of A w" by auto
  have "\<forall>(x, m) \<in> set rest. map_of A1 x = Some []"
  proof (clarify)
    fix x m assume xm: "(x, m) \<in> set rest"
    with un have "x \<noteq> u" by force
    with d xm Cons.prems(3) show "map_of A1 x = Some []" by auto
  qed
  from Cons.IH [OF b dr this] obtain A2 I2
    where e: "fold_opt (\<lambda>(item_id, meta). fold_opt (add_edge item_id) (nxt meta)) rest (A1, I1)
             = Some (A2, I2)" and f: "build_ok K (A2, I2)"
      and g: "\<forall>(x, m) \<in> set rest. map_of A2 x = Some (filter (\<lambda>t. t \<in> K) (nxt m))"
      and h: "\<forall>w. w \<notin> fst ` set rest \<longrightarrow> map_of A2 w = map_of A1 w" by blast
  from a e p have
    "fold_opt (\<lambda>(item_id, meta). fold_opt (add_edge item_id) (nxt meta)) (p # rest) (A, I)
       = Some (A2, I2)" by simp
  moreover from c h un g p
  have "\<forall>(x, m) \<in> set (p # rest). map_of A2 x = Some (filter (\<lambda>t. t \<in> K) (nxt m))" by auto
  moreover from d h p have "\<forall>w. w \<notin> fst ` set (p # rest) \<longrightarrow> map_of A2 w = map_of A w" by auto
  ultimately show ?case using f by blast
qed

lemma pending_empty_lists: "pending (map (\<lambda>(k, m). (k, [])) its) D v = 0"
  by (induction its) (auto simp: pending_def)

lemma map_of_const: "(k, m) \<in> set its \<Longrightarrow> map_of (map (\<lambda>(k, m). (k, c)) its) k = Some c"
  by (induction its) auto

lemma build_graph_ok:
  assumes "distinct (map fst its)"
  shows "\<exists>A I. build_graph its = Some (A, I) \<and> build_ok (fst ` set its) (A, I) \<and>
           (\<forall>(u, meta) \<in> set its. map_of A u = Some (filter (\<lambda>t. has_key t its) (nxt meta)))"
proof -
  let ?K = "fst ` set its"
  let ?A0 = "map (\<lambda>(item_id, meta). (item_id, [])) its"
  let ?I0 = "map (\<lambda>(item_id, meta). (item_id, 0::int)) its"
  have k: "map fst ?A0 = map fst its" "map fst ?I0 = map fst its" by (induction its) auto
  have g1: "fst ` set ?A0 = ?K" by (metis k(1) set_map)
  have g2: "\<forall>(u, l) \<in> set ?A0. set l \<subseteq> ?K" by auto
  have g3: "distinct (map fst ?A0)" using assms by (simp only: k(1))
  from g1 g2 g3 have "graph_ok ?K ?A0"
    unfolding graph_ok_def by (intro conjI)
  moreover have "fst ` set ?I0 = ?K" by (metis k(2) set_map)
  moreover have "\<forall>v \<in> ?K. map_of ?I0 v = Some (int (pending ?A0 {} v))"
    by (auto simp: pending_empty_lists map_of_const)
  ultimately have ok: "build_ok ?K (?A0, ?I0)" by (simp add: build_ok_def)
  have "\<forall>(u, meta) \<in> set its. map_of ?A0 u = Some []" by (auto simp: map_of_const)
  from fold_items_ok [OF ok assms this] show ?thesis
    by (auto simp: build_graph_def has_key_def)
qed

text \<open>
  The successor graph of a procedure's items: an edge leads from an item to each entry of
  its \<open>next\<close> list that is an item of the same procedure.
\<close>

definition succ_edges :: "items \<Rightarrow> (string \<times> string) set" where
  "succ_edges its =
     {(u, v). \<exists>meta. (u, meta) \<in> set its \<and> v \<in> set (nxt meta) \<and> has_key v its}"

lemma initial_queue_eq:
  "\<forall>i \<in> set ks. map_of I i \<noteq> None \<Longrightarrow>
     fold_opt (\<lambda>i q. case map_of I i of
                        None \<Rightarrow> None
                      | Some d \<Rightarrow> Some (if d = 0 then q @ [i] else q)) ks q
       = Some (q @ filter (\<lambda>i. map_of I i = Some 0) ks)"
  by (induction ks arbitrary: q) auto

lemma vertical_order_run_inv:
  assumes d: "distinct (map fst its)"
  shows "\<exists>A st. vertical_order_run its = Some st \<and> graph_ok (fst ` set its) A \<and>
           edges A = succ_edges its \<and>
           bfs_inv (fst ` set its) A (adj_list A) [] st \<and> queue st = []"
proof -
  let ?K = "fst ` set its"
  from build_graph_ok [OF d] obtain A I where b: "build_graph its = Some (A, I)"
    and ok: "build_ok ?K (A, I)"
    and adj: "\<forall>(u, meta) \<in> set its. map_of A u = Some (filter (\<lambda>t. has_key t its) (nxt meta))"
    by blast
  from ok have g: "graph_ok ?K A" and kI: "fst ` set I = ?K"
    and deg: "\<And>v. v \<in> ?K \<Longrightarrow> map_of I v = Some (int (pending A {} v))"
    unfolding build_ok_def by auto
  from g have dA: "distinct (map fst A)" and kA: "fst ` set A = ?K"
    unfolding graph_ok_def by auto
  let ?q = "filter (\<lambda>i. map_of I i = Some 0) (map fst its)"
  let ?st = "\<lparr>queue = ?q, levels = map (\<lambda>(item_id, meta). (item_id, 0)) its,
              in_degree = I, dequeued = []\<rparr>"
  have "\<forall>i \<in> set (map fst its). map_of I i \<noteq> None"
    using deg by auto
  from initial_queue_eq [OF this, of "[]"] have q: "initial_queue its I = Some ?q"
    by (simp add: initial_queue_def)
  have e: "edges A = succ_edges its"
  proof (rule set_eqI, clarify)
    fix u v
    show "((u, v) \<in> edges A) = ((u, v) \<in> succ_edges its)"
    proof
      assume "(u, v) \<in> edges A"
      then obtain l where l: "(u, l) \<in> set A" "v \<in> set l" by (auto simp: edges_def)
      with kA obtain meta where m: "(u, meta) \<in> set its" by force
      with adj have "map_of A u = Some (filter (\<lambda>t. has_key t its) (nxt meta))" by auto
      moreover from l(1) dA have "map_of A u = Some l" by simp
      ultimately have "l = filter (\<lambda>t. has_key t its) (nxt meta)" by simp
      with l(2) m show "(u, v) \<in> succ_edges its" by (auto simp: succ_edges_def)
    next
      assume "(u, v) \<in> succ_edges its"
      then obtain meta where m: "(u, meta) \<in> set its" "v \<in> set (nxt meta)" "has_key v its"
        by (auto simp: succ_edges_def)
      with adj have "map_of A u = Some (filter (\<lambda>t. has_key t its) (nxt meta))" by auto
      then have "(u, filter (\<lambda>t. has_key t its) (nxt meta)) \<in> set A" by (rule map_of_SomeD)
      with m show "(u, v) \<in> edges A" by (auto simp: edges_def)
    qed
  qed
  have l0: "rank_in ?st w = 0" for w
    by (induction its) (auto simp: rank_in_def)
  have i: "bfs_inv ?K A (adj_list A) [] ?st"
    unfolding bfs_inv_def
  proof (intro conjI ballI impI)
    show "fst ` set (levels ?st) = ?K" by force
    show "fst ` set (in_degree ?st) = ?K" using kI by simp
    show "distinct (queue ?st @ dequeued ?st)" using d by simp
    show "set (queue ?st) \<union> set (dequeued ?st) \<subseteq> ?K" by auto
  next
    fix w assume w: "w \<in> ?K"
    show "map_of (in_degree ?st) w = Some (int (pending A (set (dequeued ?st)) w + count_list [] w))"
      using deg [OF w] by simp
    show "(w \<in> set (queue ?st) \<union> set (dequeued ?st)) =
            (pending A (set (dequeued ?st)) w + count_list [] w = 0)"
      using deg [OF w] w by auto
    show "0 \<le> rank_in ?st w" by (simp only: l0)
  next
    fix u w assume "u \<in> set (dequeued ?st)"
    then show "rank_in ?st u < rank_in ?st w" by simp
  next
    fix w
    show "rank_in ?st w = 0" by (rule l0)
  next
    fix w assume "w \<in> set (queue ?st) \<union> set (dequeued ?st)"
    then have w: "w \<in> ?K" and "map_of I w = Some 0" by auto
    with deg [OF w] have z: "pending A {} w = 0" by simp
    show "(w, w) \<notin> (edges A)\<^sup>+"
    proof
      assume "(w, w) \<in> (edges A)\<^sup>+"
      from cycle_pred [OF this] obtain p where "(p, w) \<in> edges A" by blast
      from pending_zero [OF z this] show False by simp
    qed
  qed
  from bfs_inv_bfs [OF g i] obtain st1 where "bfs A ?st = Some st1"
    "bfs_inv ?K A (adj_list A) [] st1" "queue st1 = []" by blast
  with b q g e show ?thesis by (auto simp: vertical_order_run_def)
qed

lemma adj_list_edges: "distinct (map fst A) \<Longrightarrow> (v \<in> set (adj_list A u)) = ((u, v) \<in> edges A)"
proof -
  assume d: "distinct (map fst A)"
  show ?thesis
  proof (cases "map_of A u")
    case None
    then have "u \<notin> fst ` set A" by (simp add: map_of_eq_None_iff)
    with None show ?thesis by (force simp: adj_list_def edges_def)
  next
    case (Some l)
    with d have "\<And>m. ((u, m) \<in> set A) = (m = l)"
      by (metis map_of_SomeD map_of_is_SomeI option.inject)
    with Some show ?thesis by (auto simp: adj_list_def edges_def)
  qed
qed

text \<open>
  Claim C1.  For a procedure's items (a dictionary, so the keys are distinct) and an edge
  \<open>u \<rightarrow> v\<close> of its successor graph, \<open>calculate_vertical_order\<close> returns ranks, and when
  \<open>u\<close> is dequeued during the run the rank of \<open>v\<close> is greater than the rank of \<open>u\<close>.
  That \<open>v\<close> is dequeued as well is not needed.
\<close>

theorem leveling_correct:
  assumes "distinct (map fst its)" "(u, meta) \<in> set its" "v \<in> set (nxt meta)" "has_key v its"
  shows "\<exists>st. vertical_order_run its = Some st \<and>
              calculate_vertical_order its = Some (levels st) \<and>
              (u \<in> set (dequeued st) \<longrightarrow>
                 (\<exists>ru rv. map_of (levels st) u = Some ru \<and> map_of (levels st) v = Some rv \<and>
                           ru < rv))"
proof -
  let ?K = "fst ` set its"
  from vertical_order_run_inv [OF assms(1)] obtain A st
    where r: "vertical_order_run its = Some st" and g: "graph_ok ?K A"
      and e: "edges A = succ_edges its" and i: "bfs_inv ?K A (adj_list A) [] st" by blast
  from g have dA: "distinct (map fst A)" unfolding graph_ok_def by auto
  from assms(2-4) have uv: "(u, v) \<in> succ_edges its" by (auto simp: succ_edges_def)
  from assms(2) have uK: "u \<in> ?K" by force
  from assms(4) have vK: "v \<in> ?K" by (simp add: has_key_def)
  have "rank_in st u < rank_in st v" if "u \<in> set (dequeued st)"
    using bfs_invD(7) [OF i that, of v] uv e adj_list_edges [OF dA, of v u] by simp
  moreover from uK vK bfs_invD(1) [OF i]
  have "map_of (levels st) u = Some (rank_in st u)" "map_of (levels st) v = Some (rank_in st v)"
    by (simp_all add: rank_in_lookup)
  ultimately show ?thesis using r by (auto simp: calculate_vertical_order_def)
qed

text \<open>
  Claim C2, as amended.  A node on a cycle of the successor graph is never dequeued and
  its in-degree is positive when the loop ends (the loop only decrements it).  Its rank
  is the initial 0 exactly when none of its predecessors is dequeued: a dequeued
  predecessor relaxes it before the in-degree test, which raises its rank.
\<close>

theorem cycle_nodes_never_dequeued:
  assumes "distinct (map fst its)" "(v, v) \<in> (succ_edges its)\<^sup>+"
  shows "\<exists>st. vertical_order_run its = Some st \<and>
              calculate_vertical_order its = Some (levels st) \<and>
              v \<notin> set (dequeued st) \<and>
              (\<exists>d. map_of (in_degree st) v = Some d \<and> 0 < d) \<and>
              ((map_of (levels st) v = Some 0) =
                 (\<forall>u \<in> set (dequeued st). (u, v) \<notin> succ_edges its))"
proof -
  let ?K = "fst ` set its"
  from vertical_order_run_inv [OF assms(1)] obtain A st
    where r: "vertical_order_run its = Some st" and g: "graph_ok ?K A"
      and e: "edges A = succ_edges its" and i: "bfs_inv ?K A (adj_list A) [] st"
      and q: "queue st = []" by blast
  from g have dA: "distinct (map fst A)" unfolding graph_ok_def by auto
  from cycle_pred [OF assms(2)] obtain p where "(p, v) \<in> succ_edges its" by blast
  then have vK: "v \<in> ?K" by (auto simp: succ_edges_def has_key_def)
  from bfs_invD(10) [OF i, of v] assms(2) e have nd: "v \<notin> set (dequeued st)" by auto
  with bfs_invD(6) [OF i vK] q have "pending A (set (dequeued st)) v \<noteq> 0" by simp
  with bfs_invD(5) [OF i vK] have deg: "\<exists>d. map_of (in_degree st) v = Some d \<and> 0 < d" by simp
  have lv: "map_of (levels st) v = Some (rank_in st v)"
    using vK bfs_invD(1) [OF i] by (simp add: rank_in_lookup)
  have "(rank_in st v = 0) = (\<forall>u \<in> set (dequeued st). (u, v) \<notin> succ_edges its)"
  proof
    assume z: "rank_in st v = 0"
    show "\<forall>u \<in> set (dequeued st). (u, v) \<notin> succ_edges its"
    proof
      fix u assume u: "u \<in> set (dequeued st)"
      show "(u, v) \<notin> succ_edges its"
      proof
        assume "(u, v) \<in> succ_edges its"
        with e adj_list_edges [OF dA, of v u] have "v \<in> set (adj_list A u)" by simp
        from bfs_invD(7) [OF i u this] have "rank_in st u < rank_in st v" .
        moreover from u bfs_invD(4) [OF i] have "u \<in> ?K" by auto
        from bfs_invD(8) [OF i this] have "0 \<le> rank_in st u" .
        ultimately show False using z by simp
      qed
    qed
  next
    assume "\<forall>u \<in> set (dequeued st). (u, v) \<notin> succ_edges its"
    with e adj_list_edges [OF dA] have "\<forall>u \<in> set (dequeued st). v \<notin> set (adj_list A u)"
      by simp
    from bfs_invD(9) [OF i vK this] show "rank_in st v = 0" .
  qed
  with lv have "(map_of (levels st) v = Some 0) =
      (\<forall>u \<in> set (dequeued st). (u, v) \<notin> succ_edges its)" by simp
  with r nd deg show ?thesis by (auto simp: calculate_vertical_order_def)
qed

lemma run_chain_example:
  "vertical_order_run
     [(''A'', \<lparr>stakeholders = [''X''], nxt = [''B'']\<rparr>),
      (''B'', \<lparr>stakeholders = [''X''], nxt = []\<rparr>)] =
   Some \<lparr>queue = [], levels = [(''A'', 0), (''B'', 1)],
          in_degree = [(''A'', 0), (''B'', 0)], dequeued = [''A'', ''B'']\<rparr>"
  by code_simp

theorem leveling_correct_witness:
  "\<exists>st. vertical_order_run
           [(''A'', \<lparr>stakeholders = [''X''], nxt = [''B'']\<rparr>),
            (''B'', \<lparr>stakeholders = [''X''], nxt = []\<rparr>)] = Some st \<and>
        ''A'' \<in> set (dequeued st) \<and> ''B'' \<in> set (dequeued st) \<and>
        map_of (levels st) ''A'' = Some 0 \<and> map_of (levels st) ''B'' = Some 1 \<and>
        (\<exists>ru rv. map_of (levels st) ''A'' = Some ru \<and> map_of (levels st) ''B'' = Some rv \<and>
                  ru < rv)"
proof -
  let ?its = "[(''A'', \<lparr>stakeholders = [''X''], nxt = [''B'']\<rparr>),
               (''B'', \<lparr>stakeholders = [''X''], nxt = []\<rparr>)]"
  have h1: "distinct (map fst ?its)" by simp
  have h2: "(''A'', \<lparr>stakeholders = [''X''], nxt = [''B'']\<rparr>) \<in> set ?its" by simp
  have h3: "''B'' \<in> set (nxt \<lparr>stakeholders = [''X''], nxt = [''B'']\<rparr>)" by simp
  have h4: "has_key ''B'' ?its" by (simp add: has_key_def)
  from leveling_correct [OF h1 h2 h3 h4] obtain st
    where a: "vertical_order_run ?its = Some st"
      and b: "''A'' \<in> set (dequeued st) \<longrightarrow>
                 (\<exists>ru rv. map_of (levels st) ''A'' = Some ru \<and>
                           map_of (levels st) ''B'' = Some rv \<and> ru < rv)" by blast
  from a run_chain_example
  have c: "st = \<lparr>queue = [], levels = [(''A'', 0), (''B'', 1)],
          in_degree = [(''A'', 0), (''B'', 0)], dequeued = [''A'', ''B'']\<rparr>" by simp
  then have d: "''A'' \<in> set (dequeued st)" "''B'' \<in> set (dequeued st)"
    "map_of (levels st) ''A'' = Some 0" "map_of (levels st) ''B'' = Some 1" by simp_all
  with a b show ?thesis by blast
qed

lemma run_cycle_example:
  "vertical_order_run
     [(''A'', \<lparr>stakeholders = [''X''], nxt = [''B'']\<rparr>),
      (''B'', \<lparr>stakeholders = [''X''], nxt = [''C'']\<rparr>),
      (''C'', \<lparr>stakeholders = [''X''], nxt = [''B'']\<rparr>)] =
   Some \<lparr>queue = [], levels = [(''A'', 0), (''B'', 1), (''C'', 0)],
          in_degree = [(''A'', 0), (''B'', 1), (''C'', 1)], dequeued = [''A'']\<rparr>"
  by code_simp

lemma cycle_example_edges:
  "(''A'', ''B'') \<in> succ_edges
     [(''A'', \<lparr>stakeholders = [''X''], nxt = [''B'']\<rparr>),
      (''B'', \<lparr>stakeholders = [''X''], nxt = [''C'']\<rparr>),
      (''C'', \<lparr>stakeholders = [''X''], nxt = [''B'']\<rparr>)]"
  "(''B'', ''C'') \<in> succ_edges
     [(''A'', \<lparr>stakeholders = [''X''], nxt = [''B'']\<rparr>),
      (''B'', \<lparr>stakeholders = [''X''], nxt = [''C'']\<rparr>),
      (''C'', \<lparr>stakeholders = [''X''], nxt = [''B'']\<rparr>)]"
  "(''C'', ''B'') \<in> succ_edges
     [(''A'', \<lparr>stakeholders = [''X''], nxt = [''B'']\<rparr>),
      (''B'', \<lparr>stakeholders = [''X''], nxt = [''C'']\<rparr>),
      (''C'', \<lparr>stakeholders = [''X''], nxt = [''B'']\<rparr>)]"
  "(''A'', ''C'') \<notin> succ_edges
     [(''A'', \<lparr>stakeholders = [''X''], nxt = [''B'']\<rparr>),
      (''B'', \<lparr>stakeholders = [''X''], nxt = [''C'']\<rparr>),
      (''C'', \<lparr>stakeholders = [''X''], nxt = [''B'']\<rparr>)]"
  by (simp_all add: succ_edges_def has_key_def)

text \<open>
  Claim C2 as stated fails: in \<open>A \<rightarrow> B \<rightarrow> C \<rightarrow> B\<close> the node \<open>B\<close> is on a cycle, and the
  dequeued node \<open>A\<close> gives it rank 1.
\<close>

theorem cycle_rank_counterexample:
  "(''B'', ''B'') \<in> (succ_edges
     [(''A'', \<lparr>stakeholders = [''X''], nxt = [''B'']\<rparr>),
      (''B'', \<lparr>stakeholders = [''X''], nxt = [''C'']\<rparr>),
      (''C'', \<lparr>stakeholders = [''X''], nxt = [''B'']\<rparr>)])\<^sup>+ \<and>
   calculate_vertical_order
     [(''A'', \<lparr>stakeholders = [''X''], nxt = [''B'']\<rparr>),
      (''B'', \<lparr>stakeholders = [''X''], nxt = [''C'']\<rparr>),
      (''C'', \<lparr>stakeholders = [''X''], nxt = [''B'']\<rparr>)] =
     Some [(''A'', 0), (''B'', 1), (''C'', 0)] \<and>
   map_of [(''A'', 0 :: int), (''B'', 1), (''C'', 0)] ''B'' \<noteq> Some 0"
proof -
  from cycle_example_edges(2,3) have "(''B'', ''B'') \<in> (succ_edges
     [(''A'', \<lparr>stakeholders = [''X''], nxt = [''B'']\<rparr>),
      (''B'', \<lparr>stakeholders = [''X''], nxt = [''C'']\<rparr>),
      (''C'', \<lparr>stakeholders = [''X''], nxt = [''B'']\<rparr>)])\<^sup>+"
    by (rule trancl_into_trancl [OF r_into_trancl])
  then show ?thesis by (simp add: calculate_vertical_order_def run_cycle_example)
qed

theorem cycle_nodes_never_dequeued_witness:
  "(''C'', ''C'') \<in> (succ_edges
     [(''A'', \<lparr>stakeholders = [''X''], nxt = [''B'']\<rparr>),
      (''B'', \<lparr>stakeholders = [''X''], nxt = [''C'']\<rparr>),
      (''C'', \<lparr>stakeholders = [''X''], nxt = [''B'']\<rparr>)])\<^sup>+ \<and>
   (\<exists>st. vertical_order_run
      [(''A'', \<lparr>stakeholders = [''X''], nxt = [''B'']\<rparr>),
       (''B'', \<lparr>stakeholders = [''X''], nxt = [''C'']\<rparr>),
       (''C'', \<lparr>stakeholders = [''X''], nxt = [''B'']\<rparr>)] = Some st \<and>
      dequeued st = [''A''] \<and> ''C'' \<notin> set (dequeued st) \<and>
      map_of (in_degree st) ''C'' = Some 1 \<and>
      map_of (levels st) ''C'' = Some 0) \<and>
   (''A'', ''C'') \<notin> succ_edges
     [(''A'', \<lparr>stakeholders = [''X''], nxt = [''B'']\<rparr>),
      (''B'', \<lparr>stakeholders = [''X''], nxt = [''C'']\<rparr>),
      (''C'', \<lparr>stakeholders = [''X''], nxt = [''B'']\<rparr>)]"
proof -
  let ?its = "[(''A'', \<lparr>stakeholders = [''X''], nxt = [''B'']\<rparr>),
      (''B'', \<lparr>stakeholders = [''X''], nxt = [''C'']\<rparr>),
      (''C'', \<lparr>stakeholders = [''X''], nxt = [''B'']\<rparr>)]"
  have h1: "distinct (map fst ?its)" by simp
  from cycle_example_edges(3,2) have h2: "(''C'', ''C'') \<in> (succ_edges ?its)\<^sup>+"
    by (rule trancl_into_trancl [OF r_into_trancl])
  from cycle_nodes_never_dequeued [OF h1 h2] obtain st
    where a: "vertical_order_run ?its = Some st" and b: "''C'' \<notin> set (dequeued st)"
      and c: "(map_of (levels st) ''C'' = Some 0) =
                (\<forall>u \<in> set (dequeued st). (u, ''C'') \<notin> succ_edges ?its)" by blast
  from a run_cycle_example
  have d: "st = \<lparr>queue = [], levels = [(''A'', 0), (''B'', 1), (''C'', 0)],
          in_degree = [(''A'', 0), (''B'', 1), (''C'', 1)], dequeued = [''A'']\<rparr>" by simp
  then have e: "dequeued st = [''A'']" "map_of (in_degree st) ''C'' = Some 1" by simp_all
  with c cycle_example_edges(4) have "map_of (levels st) ''C'' = Some 0" by simp
  with a b e h2 cycle_example_edges(4) show ?thesis by blast
qed

section \<open>Properties of the emitter: identifiers and edges\<close>

text \<open>
  The vocabulary of the statements: the identifiers of the node cells of a list of cells,
  the edge cells and their two ends; the item entries of all procedures
  (\<open>item_entries\<close>), the entries of one identifier (\<open>entries_of\<close>) and the pairs of an
  item and one of its stakeholders in the order of the node loops (\<open>occs_of\<close>).
  \<open>lanes occ x\<close> are the stakeholders of \<open>x\<close> in \<open>occ\<close>, each once, in the order of their
  first occurrence: the keys of \<open>id_map[x]\<close>.  \<open>layout_inv\<close> is the invariant of the node
  loops.
\<close>

fun node_id_of :: "cell \<Rightarrow> string option" where
  "node_id_of (Node i l t f p x y w h) = Some i"
| "node_id_of c = None"

fun is_edge :: "cell \<Rightarrow> bool" where
  "is_edge (Edge i s t) = True"
| "is_edge c = False"

definition node_ids :: "cell list \<Rightarrow> string set" where
  "node_ids cs = {i. Some i \<in> node_id_of ` set cs}"

definition lanes :: "(string \<times> string) list \<Rightarrow> string \<Rightarrow> string list" where
  "lanes occ x = fold add_unique (map snd (filter (\<lambda>e. fst e = x) occ)) []"

definition layout_inv :: "string set \<Rightarrow> (string \<times> string) list \<Rightarrow> layout_state \<Rightarrow> bool" where
  "layout_inv S occ st =
     (fst ` set (id_map st) = S \<and> fst ` set occ \<subseteq> S \<and>
      (\<forall>x copies. map_of (id_map st) x = Some copies \<longrightarrow>
         map fst copies = lanes occ x \<and> snd ` set copies \<subseteq> node_ids (root_cells st)) \<and>
      (\<forall>c \<in> set (root_cells st). \<not> is_edge c))"

lemma node_ids_append: "node_ids (cs @ ds) = node_ids cs \<union> node_ids ds"
  by (auto simp: node_ids_def)

lemma lanes_snoc:
  "lanes (occ @ [(y, sh)]) x = (if y = x then add_unique sh (lanes occ x) else lanes occ x)"
  by (simp add: lanes_def)

lemma lanes_notin: "x \<notin> fst ` set occ \<Longrightarrow> lanes occ x = []"
proof -
  assume "x \<notin> fst ` set occ"
  then have "filter (\<lambda>e. fst e = x) occ = []" by (auto simp: filter_empty_conv)
  then show ?thesis by (simp add: lanes_def)
qed

lemma keys_update_add_unique:
  "map fst (AList.update sh v copies) = add_unique sh (map fst copies)"
  by (simp add: update_keys add_unique_def)

lemma node_copy_step:
  assumes "map_of widths sh = Some lw" "map_of lane_ids sh = Some lid"
    and "get_count counts sh lvl \<noteq> 0" "map_of (id_map st) x = Some copies"
    and "is_multi \<longrightarrow> map_of (multi_item_color st) x = Some col"
  shows "node_copy U widths lane_ids counts x lvl name tip is_multi sh (st, placed) =
     Some (st\<lparr>root_cells := root_cells st @
                 [Node (U (next_uuid st)) name tip (if is_multi then col else ''#ffffff'') lid
                    (node_x lw (get_count counts sh lvl) (get_count placed sh lvl)) (node_y lvl)
                    item_width item_height],
               id_map := AList.update x (AList.update sh (U (next_uuid st)) copies) (id_map st),
               next_uuid := Suc (next_uuid st)\<rparr>,
           bump_count sh lvl placed)"
  using assms by (simp add: node_copy_def Let_def)

lemma node_copy_inv:
  assumes w: "has_key sh widths" and l: "has_key sh lane_ids"
    and c: "get_count counts sh lvl \<noteq> 0" and k: "has_key x (id_map st)"
    and m: "is_multi \<longrightarrow> has_key x (multi_item_color st)"
    and inv: "layout_inv S occ st"
  shows "\<exists>st1 placed1. node_copy U widths lane_ids counts x lvl name tip is_multi sh (st, placed)
             = Some (st1, placed1) \<and>
           layout_inv S (occ @ [(x, sh)]) st1 \<and> has_key x (id_map st1) \<and>
           multi_item_color st1 = multi_item_color st \<and> color_counter st1 = color_counter st \<and>
           current_x st1 = current_x st \<and> next_uuid st1 = Suc (next_uuid st)"
proof -
  from w obtain lw where lw: "map_of widths sh = Some lw" by (auto simp: has_key_map_of)
  from l obtain lid where lid: "map_of lane_ids sh = Some lid" by (auto simp: has_key_map_of)
  from k obtain copies where cp: "map_of (id_map st) x = Some copies"
    by (auto simp: has_key_map_of)
  from m obtain col where col: "is_multi \<longrightarrow> map_of (multi_item_color st) x = Some col"
    by (auto simp: has_key_map_of)
  define nd where "nd = Node (U (next_uuid st)) name tip (if is_multi then col else ''#ffffff'') lid
                    (node_x lw (get_count counts sh lvl) (get_count placed sh lvl)) (node_y lvl)
                    item_width item_height"
  define st1 where "st1 = st\<lparr>root_cells := root_cells st @ [nd],
               id_map := AList.update x (AList.update sh (U (next_uuid st)) copies) (id_map st),
               next_uuid := Suc (next_uuid st)\<rparr>"
  have r: "node_copy U widths lane_ids counts x lvl name tip is_multi sh (st, placed) =
      Some (st1, bump_count sh lvl placed)"
    unfolding st1_def nd_def by (rule node_copy_step [OF lw lid c cp col])
  have f: "root_cells st1 = root_cells st @ [nd]"
    "id_map st1 = AList.update x (AList.update sh (U (next_uuid st)) copies) (id_map st)"
    "multi_item_color st1 = multi_item_color st" "color_counter st1 = color_counter st"
    "current_x st1 = current_x st" "next_uuid st1 = Suc (next_uuid st)"
    by (simp_all add: st1_def)
  have nid: "node_id_of nd = Some (U (next_uuid st))" by (simp add: nd_def)
  have ne: "\<not> is_edge nd" by (simp add: nd_def)
  from inv have i1: "fst ` set (id_map st) = S" and i2: "fst ` set occ \<subseteq> S"
    and i3: "\<And>y cs. map_of (id_map st) y = Some cs \<Longrightarrow>
         map fst cs = lanes occ y \<and> snd ` set cs \<subseteq> node_ids (root_cells st)"
    and i4: "\<forall>c \<in> set (root_cells st). \<not> is_edge c"
    unfolding layout_inv_def by blast+
  from k i1 have xS: "x \<in> S" by (simp add: has_key_def)
  have "layout_inv S (occ @ [(x, sh)]) st1"
    unfolding layout_inv_def
  proof (intro conjI allI impI)
    show "fst ` set (id_map st1) = S" using i1 xS by (auto simp: f(2) dom_update)
    show "fst ` set (occ @ [(x, sh)]) \<subseteq> S" using i2 xS by auto
    show "\<forall>c \<in> set (root_cells st1). \<not> is_edge c" using i4 ne by (simp add: f(1))
  next
    fix y cs assume a: "map_of (id_map st1) y = Some cs"
    show "map fst cs = lanes (occ @ [(x, sh)]) y"
    proof (cases "y = x")
      case True
      with a have "cs = AList.update sh (U (next_uuid st)) copies"
        by (simp add: f(2) update_conv')
      with i3 [OF cp] True show ?thesis by (simp add: keys_update_add_unique lanes_snoc)
    next
      case False
      with a have "map_of (id_map st) y = Some cs" by (simp add: f(2) update_conv')
      with i3 [of y cs] False show ?thesis by (simp add: lanes_snoc)
    qed
    show "snd ` set cs \<subseteq> node_ids (root_cells st1)"
    proof (cases "y = x")
      case True
      with a have "cs = AList.update sh (U (next_uuid st)) copies"
        by (simp add: f(2) update_conv')
      then have s1: "snd ` set cs \<subseteq> insert (U (next_uuid st)) (snd ` set copies)"
        by (auto dest: set_update_cases)
      have s2: "U (next_uuid st) \<in> node_ids (root_cells st1)"
        using nid by (auto simp: f(1) node_ids_def image_iff intro: sym)
      from i3 [OF cp] have s3: "snd ` set copies \<subseteq> node_ids (root_cells st1)"
        by (auto simp: f(1) node_ids_append)
      from s2 s3 have "insert (U (next_uuid st)) (snd ` set copies) \<subseteq> node_ids (root_cells st1)"
        by simp
      with s1 show ?thesis by (rule subset_trans)
    next
      case False
      with a have "map_of (id_map st) y = Some cs" by (simp add: f(2) update_conv')
      with i3 [of y cs] show ?thesis by (auto simp: f(1) node_ids_append)
    qed
  qed
  moreover have "has_key x (id_map st1)" by (simp add: f(2) has_key_update)
  ultimately show ?thesis using r f(3-6) by blast
qed

definition occs_of :: "items \<Rightarrow> (string \<times> string) list" where
  "occs_of its = concat (map (\<lambda>(x, meta). map (Pair x) (stakeholders meta)) its)"

definition item_entries :: "data_struct \<Rightarrow> items" where
  "item_entries sd = concat (map snd sd)"

lemma occs_of_simps [simp]:
  "occs_of [] = []"
  "occs_of ((x, meta) # its) = map (Pair x) (stakeholders meta) @ occs_of its"
  "occs_of (its @ its1) = occs_of its @ occs_of its1"
  by (simp_all add: occs_of_def)

lemma fold_node_copy_inv:
  assumes "\<forall>sh \<in> set shs. has_key sh widths \<and> has_key sh lane_ids \<and> get_count counts sh lvl \<noteq> 0"
    and "has_key x (id_map st)" and "is_multi \<longrightarrow> has_key x (multi_item_color st)"
    and "layout_inv S occ st"
  shows "\<exists>st1 placed1.
           fold_opt (node_copy U widths lane_ids counts x lvl name tip is_multi) shs (st, placed)
             = Some (st1, placed1) \<and>
           layout_inv S (occ @ map (Pair x) shs) st1 \<and> has_key x (id_map st1) \<and>
           multi_item_color st1 = multi_item_color st \<and> color_counter st1 = color_counter st \<and>
           current_x st1 = current_x st \<and> next_uuid st1 = next_uuid st + length shs"
  using assms
proof (induction shs arbitrary: st placed occ)
  case Nil
  then show ?case by simp
next
  case (Cons sh shs)
  from Cons.prems(1) have a: "has_key sh widths" "has_key sh lane_ids"
    "get_count counts sh lvl \<noteq> 0" by auto
  from node_copy_inv [OF a Cons.prems(2,3,4), of U name tip placed] obtain st1 placed1
    where s: "node_copy U widths lane_ids counts x lvl name tip is_multi sh (st, placed)
             = Some (st1, placed1)"
      and i: "layout_inv S (occ @ [(x, sh)]) st1" and k: "has_key x (id_map st1)"
      and e: "multi_item_color st1 = multi_item_color st" "color_counter st1 = color_counter st"
        "current_x st1 = current_x st" "next_uuid st1 = Suc (next_uuid st)" by blast
  from Cons.prems(1) have r: "\<forall>sh \<in> set shs. has_key sh widths \<and> has_key sh lane_ids \<and>
      get_count counts sh lvl \<noteq> 0" by simp
  from Cons.prems(3) e(1) have m: "is_multi \<longrightarrow> has_key x (multi_item_color st1)" by simp
  from Cons.IH [OF r k m i, of placed1] obtain st2 placed2
    where t: "fold_opt (node_copy U widths lane_ids counts x lvl name tip is_multi) shs (st1, placed1)
             = Some (st2, placed2)"
      and j: "layout_inv S ((occ @ [(x, sh)]) @ map (Pair x) shs) st2"
      and k2: "has_key x (id_map st2)"
      and e2: "multi_item_color st2 = multi_item_color st1" "color_counter st2 = color_counter st1"
        "current_x st2 = current_x st1" "next_uuid st2 = next_uuid st1 + length shs" by blast
  from s t have "fold_opt (node_copy U widths lane_ids counts x lvl name tip is_multi) (sh # shs)
      (st, placed) = Some (st2, placed2)" by simp
  moreover from j have "layout_inv S (occ @ map (Pair x) (sh # shs)) st2" by simp
  moreover from e e2 have "multi_item_color st2 = multi_item_color st"
    "color_counter st2 = color_counter st" "current_x st2 = current_x st"
    "next_uuid st2 = next_uuid st + length (sh # shs)" by simp_all
  ultimately show ?case using k2 by blast
qed

lemma place_item_inv:
  assumes lv: "map_of item_levels x = Some lvl"
    and env: "\<forall>sh \<in> set (stakeholders meta).
                has_key sh widths \<and> has_key sh lane_ids \<and> get_count counts sh lvl \<noteq> 0"
    and inv: "layout_inv S occ st"
  shows "\<exists>st1 placed1.
           place_item U tt item_levels widths lane_ids counts (x, meta) (st, placed)
             = Some (st1, placed1) \<and>
           layout_inv (insert x S) (occ @ map (Pair x) (stakeholders meta)) st1 \<and>
           current_x st1 = current_x st \<and>
           next_uuid st1 = next_uuid st + length (stakeholders meta)"
proof -
  define is_multi where "is_multi = (1 < length (stakeholders meta))"
  define fresh_color where "fresh_color = (is_multi \<and> \<not> has_key x (multi_item_color st))"
  define st0 where "st0 = st\<lparr>multi_item_color :=
                                 (if fresh_color
                                  then AList.update x
                                         (MULTI_COLORS ! (color_counter st mod length MULTI_COLORS))
                                         (multi_item_color st)
                                  else multi_item_color st),
                               color_counter :=
                                 (if fresh_color then Suc (color_counter st) else color_counter st),
                               id_map :=
                                 (if has_key x (id_map st) then id_map st
                                  else AList.update x [] (id_map st))\<rparr>"
  have f: "root_cells st0 = root_cells st"
    "id_map st0 = (if has_key x (id_map st) then id_map st else AList.update x [] (id_map st))"
    "multi_item_color st0 = (if fresh_color
                                  then AList.update x
                                         (MULTI_COLORS ! (color_counter st mod length MULTI_COLORS))
                                         (multi_item_color st)
                                  else multi_item_color st)"
    "current_x st0 = current_x st" "next_uuid st0 = next_uuid st"
    by (simp_all add: st0_def)
  have p: "place_item U tt item_levels widths lane_ids counts (x, meta) (st, placed) =
      fold_opt (node_copy U widths lane_ids counts x lvl (replace_underscores (last_segment x))
          (case map_of tt x of None \<Rightarrow> None | Some t \<Rightarrow> (if t = [] then None else Some t))
          is_multi)
        (stakeholders meta) (st0, placed)"
    using lv by (simp add: place_item_def Let_def st0_def is_multi_def fresh_color_def)
  from inv have i1: "fst ` set (id_map st) = S" and i2: "fst ` set occ \<subseteq> S"
    and i3: "\<And>y cs. map_of (id_map st) y = Some cs \<Longrightarrow>
         map fst cs = lanes occ y \<and> snd ` set cs \<subseteq> node_ids (root_cells st)"
    and i4: "\<forall>c \<in> set (root_cells st). \<not> is_edge c"
    unfolding layout_inv_def by blast+
  have k: "has_key x (id_map st0)" by (simp add: f(2) has_key_update)
  have m: "is_multi \<longrightarrow> has_key x (multi_item_color st0)"
    by (auto simp: f(3) fresh_color_def has_key_update)
  have i0: "layout_inv (insert x S) occ st0"
    unfolding layout_inv_def
  proof (intro conjI allI impI)
    show "fst ` set (id_map st0) = insert x S"
      using i1 by (auto simp: f(2) dom_update has_key_def)
    show "fst ` set occ \<subseteq> insert x S" using i2 by auto
    show "\<forall>c \<in> set (root_cells st0). \<not> is_edge c" using i4 by (simp add: f(1))
  next
    fix y cs assume a: "map_of (id_map st0) y = Some cs"
    have "map_of (id_map st) y = Some cs \<or> (y = x \<and> cs = [] \<and> x \<notin> S)"
      using a i1 by (auto simp: f(2) update_conv' has_key_def split: if_splits)
    then have "map fst cs = lanes occ y \<and> snd ` set cs \<subseteq> node_ids (root_cells st)"
    proof
      assume "map_of (id_map st) y = Some cs"
      then show ?thesis by (rule i3)
    next
      assume b: "y = x \<and> cs = [] \<and> x \<notin> S"
      with i2 have "x \<notin> fst ` set occ" by auto
      with b show ?thesis by (simp add: lanes_notin)
    qed
    then show "map fst cs = lanes occ y" "snd ` set cs \<subseteq> node_ids (root_cells st0)"
      by (simp_all add: f(1))
  qed
  from fold_node_copy_inv [OF env k m i0, of U "replace_underscores (last_segment x)"
      "case map_of tt x of None \<Rightarrow> None | Some t \<Rightarrow> (if t = [] then None else Some t)" placed]
  obtain st1 placed1
    where a: "fold_opt (node_copy U widths lane_ids counts x lvl (replace_underscores (last_segment x))
          (case map_of tt x of None \<Rightarrow> None | Some t \<Rightarrow> (if t = [] then None else Some t))
          is_multi) (stakeholders meta) (st0, placed) = Some (st1, placed1)"
      and b: "layout_inv (insert x S) (occ @ map (Pair x) (stakeholders meta)) st1"
      and c: "current_x st1 = current_x st0" "next_uuid st1 = next_uuid st0 + length (stakeholders meta)"
    by blast
  from a p have "place_item U tt item_levels widths lane_ids counts (x, meta) (st, placed)
             = Some (st1, placed1)" by simp
  moreover from c f(4,5) have "current_x st1 = current_x st"
    "next_uuid st1 = next_uuid st + length (stakeholders meta)" by simp_all
  ultimately show ?thesis using b by blast
qed

lemma fold_place_item_inv:
  assumes "\<forall>(x, meta) \<in> set its. \<exists>lvl. map_of item_levels x = Some lvl \<and>
             (\<forall>sh \<in> set (stakeholders meta).
                has_key sh widths \<and> has_key sh lane_ids \<and> get_count counts sh lvl \<noteq> 0)"
    and "layout_inv S occ st"
  shows "\<exists>st1 placed1.
           fold_opt (place_item U tt item_levels widths lane_ids counts) its (st, placed)
             = Some (st1, placed1) \<and>
           layout_inv (S \<union> fst ` set its) (occ @ occs_of its) st1 \<and>
           current_x st1 = current_x st \<and>
           next_uuid st1 = next_uuid st + length (occs_of its)"
  using assms
proof (induction its arbitrary: st placed occ S)
  case Nil
  then show ?case by simp
next
  case (Cons e its)
  obtain x meta where e: "e = (x, meta)" by (cases e) auto
  from Cons.prems(1) e obtain lvl where lv: "map_of item_levels x = Some lvl"
    and env: "\<forall>sh \<in> set (stakeholders meta).
                has_key sh widths \<and> has_key sh lane_ids \<and> get_count counts sh lvl \<noteq> 0"
    by auto
  from place_item_inv [OF lv env Cons.prems(2), of U tt placed] obtain st1 placed1
    where a: "place_item U tt item_levels widths lane_ids counts (x, meta) (st, placed)
             = Some (st1, placed1)"
      and b: "layout_inv (insert x S) (occ @ map (Pair x) (stakeholders meta)) st1"
      and c: "current_x st1 = current_x st"
        "next_uuid st1 = next_uuid st + length (stakeholders meta)" by blast
  from Cons.prems(1) have r: "\<forall>(x, meta) \<in> set its. \<exists>lvl. map_of item_levels x = Some lvl \<and>
             (\<forall>sh \<in> set (stakeholders meta).
                has_key sh widths \<and> has_key sh lane_ids \<and> get_count counts sh lvl \<noteq> 0)" by simp
  from Cons.IH [OF r b, of placed1] obtain st2 placed2
    where d: "fold_opt (place_item U tt item_levels widths lane_ids counts) its (st1, placed1)
             = Some (st2, placed2)"
      and f: "layout_inv (insert x S \<union> fst ` set its)
                ((occ @ map (Pair x) (stakeholders meta)) @ occs_of its) st2"
      and g: "current_x st2 = current_x st1" "next_uuid st2 = next_uuid st1 + length (occs_of its)"
    by blast
  from a d e have "fold_opt (place_item U tt item_levels widths lane_ids counts) (e # its) (st, placed)
             = Some (st2, placed2)" by simp
  moreover from f e have "layout_inv (S \<union> fst ` set (e # its)) (occ @ occs_of (e # its)) st2"
    by simp
  moreover from c g e have "current_x st2 = current_x st"
    "next_uuid st2 = next_uuid st + length (occs_of (e # its))" by simp_all
  ultimately show ?case by blast
qed

definition level_of :: "int_dict \<Rightarrow> string \<Rightarrow> int" where
  "level_of item_levels x = (case map_of item_levels x of None \<Rightarrow> 0 | Some l \<Rightarrow> l)"

definition cell_keys :: "int_dict \<Rightarrow> items \<Rightarrow> (string \<times> int) list" where
  "cell_keys item_levels its =
     concat (map (\<lambda>(x, meta). map (\<lambda>sh. (sh, level_of item_levels x)) (stakeholders meta)) its)"

lemma get_count_bump:
  "get_count (bump_count sh lvl d) sh1 lvl1 =
     get_count d sh1 lvl1 + (if sh1 = sh \<and> lvl1 = lvl then 1 else 0)"
  by (cases "map_of d sh") (auto simp: get_count_def bump_count_def update_conv')

lemma fold_bump_count:
  "get_count (fold (\<lambda>sh. bump_count sh lvl) shs d) sh1 lvl1 =
     get_count d sh1 lvl1 + int (count_list (map (\<lambda>sh. (sh, lvl)) shs) (sh1, lvl1))"
  by (induction shs arbitrary: d) (auto simp: get_count_bump)

lemma fold_count_item:
  assumes "\<forall>(x, meta) \<in> set its. has_key x item_levels"
  shows "\<exists>counts. fold_opt (count_item item_levels) its d = Some counts \<and>
           (\<forall>sh lvl. get_count counts sh lvl =
              get_count d sh lvl + int (count_list (cell_keys item_levels its) (sh, lvl)))"
  using assms
proof (induction its arbitrary: d)
  case Nil
  then show ?case by (simp add: cell_keys_def)
next
  case (Cons e its)
  obtain x meta where e: "e = (x, meta)" by (cases e) auto
  from Cons.prems e obtain l where l: "map_of item_levels x = Some l"
    by (auto simp: has_key_map_of)
  define d1 where "d1 = fold (\<lambda>sh. bump_count sh l) (stakeholders meta) d"
  from l e have s: "count_item item_levels e d = Some d1"
    by (simp add: count_item_def d1_def)
  from Cons.prems have "\<forall>(x, meta) \<in> set its. has_key x item_levels" by simp
  from Cons.IH [OF this, of d1] obtain counts
    where a: "fold_opt (count_item item_levels) its d1 = Some counts"
      and b: "\<forall>sh lvl. get_count counts sh lvl =
              get_count d1 sh lvl + int (count_list (cell_keys item_levels its) (sh, lvl))"
    by blast
  have c: "cell_keys item_levels (e # its) =
      map (\<lambda>sh. (sh, l)) (stakeholders meta) @ cell_keys item_levels its"
    using l e by (simp add: cell_keys_def level_of_def)
  from s a have "fold_opt (count_item item_levels) (e # its) d = Some counts" by simp
  moreover have "\<forall>sh lvl. get_count counts sh lvl =
              get_count d sh lvl + int (count_list (cell_keys item_levels (e # its)) (sh, lvl))"
    using b by (simp add: c d1_def fold_bump_count)
  ultimately show ?case by blast
qed

lemma get_count_empty: "get_count [] sh lvl = 0"
  by (simp add: get_count_def)

lemma lane_level_counts_exact:
  assumes "\<forall>(x, meta) \<in> set its. has_key x item_levels"
  shows "\<exists>counts. lane_level_counts item_levels its = Some counts \<and>
           (\<forall>sh lvl. get_count counts sh lvl = int (count_list (cell_keys item_levels its) (sh, lvl)))"
  using fold_count_item [OF assms, of "[]"] by (simp add: lane_level_counts_def get_count_empty)

lemma cell_keys_member:
  "(x, meta) \<in> set its \<Longrightarrow> sh \<in> set (stakeholders meta) \<Longrightarrow>
     (sh, level_of item_levels x) \<in> set (cell_keys item_levels its)"
  by (force simp: cell_keys_def)

lemma set_fold_add_unique: "set (fold add_unique xs acc) = set xs \<union> set acc"
  by (induction xs arbitrary: acc) (auto simp: add_unique_def)

lemma set_fold_stakeholders:
  "set (fold (\<lambda>(item_id, meta). fold add_unique (stakeholders meta)) its acc) =
     (\<Union>(x, meta) \<in> set its. set (stakeholders meta)) \<union> set acc"
  by (induction its arbitrary: acc) (auto simp: set_fold_add_unique)

lemma set_all_stakeholders:
  "set (all_stakeholders its) = (\<Union>(x, meta) \<in> set its. set (stakeholders meta))"
  by (simp add: all_stakeholders_def set_fold_stakeholders)

lemma has_key_lane_widths: "has_key sh (lane_widths counts shs) = (sh \<in> set shs)"
  by (auto simp: has_key_def lane_widths_def image_iff)

lemma fold_add_lane:
  assumes "\<forall>sh \<in> set shs. has_key sh widths"
  shows "\<exists>new lids1 acc1.
           fold_opt (add_lane U widths pid ph) shs (cs, lids, acc, n)
             = Some (cs @ new, lids1, acc1, n + length shs) \<and>
           fst ` set lids1 = fst ` set lids \<union> set shs \<and>
           (\<forall>c \<in> set new. \<not> is_edge c \<and> node_id_of c = None)"
  using assms
proof (induction shs arbitrary: cs lids acc n)
  case Nil
  then show ?case by simp
next
  case (Cons sh shs)
  from Cons.prems obtain lw where lw: "map_of widths sh = Some lw"
    by (auto simp: has_key_map_of)
  define c where "c = Lane (U n) sh pid acc pool_header_height lw (ph - pool_header_height)"
  from lw have s: "add_lane U widths pid ph sh (cs, lids, acc, n) =
      Some (cs @ [c], AList.update sh (U n) lids, acc + lw, Suc n)"
    by (simp add: add_lane_def c_def)
  from Cons.prems have "\<forall>sh \<in> set shs. has_key sh widths" by simp
  from Cons.IH [OF this, of "cs @ [c]" "AList.update sh (U n) lids" "acc + lw" "Suc n"]
  obtain new lids1 acc1
    where a: "fold_opt (add_lane U widths pid ph) shs
                (cs @ [c], AList.update sh (U n) lids, acc + lw, Suc n)
             = Some ((cs @ [c]) @ new, lids1, acc1, Suc n + length shs)"
      and b: "fst ` set lids1 = fst ` set (AList.update sh (U n) lids) \<union> set shs"
      and d: "\<forall>c \<in> set new. \<not> is_edge c \<and> node_id_of c = None" by blast
  from s a have "fold_opt (add_lane U widths pid ph) (sh # shs) (cs, lids, acc, n)
             = Some (cs @ (c # new), lids1, acc1, n + length (sh # shs))" by simp
  moreover from b have "fst ` set lids1 = fst ` set lids \<union> set (sh # shs)"
    by (auto simp: dom_update)
  moreover from d have "\<forall>c \<in> set (c # new). \<not> is_edge c \<and> node_id_of c = None"
    by (simp add: c_def)
  ultimately show ?case by blast
qed

lemma layout_inv_root:
  assumes "layout_inv S occ st" "\<forall>c \<in> set new. \<not> is_edge c"
  shows "layout_inv S occ (st\<lparr>root_cells := root_cells st @ new, next_uuid := n\<rparr>)"
proof -
  from assms(1) have i1: "fst ` set (id_map st) = S" and i2: "fst ` set occ \<subseteq> S"
    and i3: "\<And>y cs. map_of (id_map st) y = Some cs \<Longrightarrow>
         map fst cs = lanes occ y \<and> snd ` set cs \<subseteq> node_ids (root_cells st)"
    and i4: "\<forall>c \<in> set (root_cells st). \<not> is_edge c"
    unfolding layout_inv_def by blast+
  show ?thesis
    unfolding layout_inv_def
  proof (intro conjI allI impI)
    show "fst ` set (id_map (st\<lparr>root_cells := root_cells st @ new, next_uuid := n\<rparr>)) = S"
      using i1 by simp
    show "fst ` set occ \<subseteq> S" by (rule i2)
    show "\<forall>c \<in> set (root_cells (st\<lparr>root_cells := root_cells st @ new, next_uuid := n\<rparr>)).
        \<not> is_edge c" using i4 assms(2) by auto
  next
    fix y cs
    assume "map_of (id_map (st\<lparr>root_cells := root_cells st @ new, next_uuid := n\<rparr>)) y = Some cs"
    then have "map_of (id_map st) y = Some cs" by simp
    from i3 [OF this]
    show "map fst cs = lanes occ y"
      "snd ` set cs \<subseteq> node_ids (root_cells (st\<lparr>root_cells := root_cells st @ new, next_uuid := n\<rparr>))"
      by (auto simp: node_ids_append)
  qed
qed

lemma calculate_vertical_order_total:
  assumes "distinct (map fst its)"
  shows "\<exists>item_levels. calculate_vertical_order its = Some item_levels \<and>
           fst ` set item_levels = fst ` set its"
proof -
  from vertical_order_run_inv [OF assms] obtain A st
    where "vertical_order_run its = Some st" "bfs_inv (fst ` set its) A (adj_list A) [] st"
    by blast
  with bfs_invD(1) [of "fst ` set its" A "adj_list A" "[]" st] show ?thesis
    by (simp add: calculate_vertical_order_def)
qed

lemma layout_inv_current_x:
  "layout_inv S occ (st\<lparr>current_x := c\<rparr>) = layout_inv S occ st"
  by (simp add: layout_inv_def)

lemma layout_procedure_inv:
  assumes d: "distinct (map fst its)" and inv: "layout_inv S occ st"
  shows "\<exists>st1. layout_procedure U tt (m, its) st = Some st1 \<and>
           layout_inv (S \<union> fst ` set its) (occ @ occs_of its) st1"
proof (cases "its = []")
  case True
  with inv show ?thesis by (simp add: layout_procedure_def)
next
  case False
  from calculate_vertical_order_total [OF d] obtain item_levels
    where lv: "calculate_vertical_order its = Some item_levels"
      and kl: "fst ` set item_levels = fst ` set its" by blast
  from False kl have "item_levels \<noteq> []" by auto
  then obtain max_level where ml: "max_value item_levels = Some max_level"
    by (simp add: max_value_def)
  have hk: "\<forall>(x, meta) \<in> set its. has_key x item_levels"
    using kl by (force simp: has_key_def)
  from lane_level_counts_exact [OF hk] obtain counts
    where cn: "lane_level_counts item_levels its = Some counts"
      and ce: "\<And>sh lvl. get_count counts sh lvl
                 = int (count_list (cell_keys item_levels its) (sh, lvl))" by blast
  define shs where "shs = all_stakeholders its"
  define widths where "widths = lane_widths counts shs"
  define pool_width where "pool_width = sum_list (map snd widths)"
  define pool_height where
    "pool_height = (max_level + 1) * vertical_spacing + lane_header_height + 60"
  define pool where "pool = Pool (U (next_uuid st)) (replace_underscores m) (map_of tt m)
                              (current_x st) y_start pool_width pool_height"
  have "\<forall>sh \<in> set shs. has_key sh widths" by (simp add: widths_def has_key_lane_widths)
  from fold_add_lane [OF this, of U "U (next_uuid st)" pool_height "root_cells st @ [pool]"
      "[]" 0 "Suc (next_uuid st)"]
  obtain new lane_ids acc1
    where fl: "fold_opt (add_lane U widths (U (next_uuid st)) pool_height) shs
                 (root_cells st @ [pool], [], 0, Suc (next_uuid st))
               = Some ((root_cells st @ [pool]) @ new, lane_ids, acc1,
                       Suc (next_uuid st) + length shs)"
      and kid: "fst ` set lane_ids = set shs"
      and nw: "\<forall>c \<in> set new. \<not> is_edge c \<and> node_id_of c = None" by auto
  define st0 where "st0 = st\<lparr>root_cells := (root_cells st @ [pool]) @ new,
                                next_uuid := Suc (next_uuid st) + length shs\<rparr>"
  have "\<forall>c \<in> set (pool # new). \<not> is_edge c" using nw by (simp add: pool_def)
  from layout_inv_root [OF inv this, of "Suc (next_uuid st) + length shs"]
  have i0: "layout_inv S occ st0" by (simp add: st0_def)
  have env: "\<forall>(x, meta) \<in> set its. \<exists>lvl. map_of item_levels x = Some lvl \<and>
             (\<forall>sh \<in> set (stakeholders meta).
                has_key sh widths \<and> has_key sh lane_ids \<and> get_count counts sh lvl \<noteq> 0)"
  proof (clarify)
    fix x meta assume xm: "(x, meta) \<in> set its"
    with hk obtain lvl where l: "map_of item_levels x = Some lvl"
      by (auto simp: has_key_map_of)
    then have lo: "level_of item_levels x = lvl" by (simp add: level_of_def)
    have "has_key sh widths \<and> has_key sh lane_ids \<and> get_count counts sh lvl \<noteq> 0"
      if sh: "sh \<in> set (stakeholders meta)" for sh
    proof -
      from xm sh have "sh \<in> set shs" by (auto simp: shs_def set_all_stakeholders)
      then have "has_key sh widths" "has_key sh lane_ids"
        using kid by (simp_all add: widths_def has_key_lane_widths) (simp add: has_key_def)
      moreover from cell_keys_member [OF xm sh, of item_levels] lo
      have "count_list (cell_keys item_levels its) (sh, lvl) \<noteq> 0"
        by (simp add: count_list_0_iff)
      then have "get_count counts sh lvl \<noteq> 0" by (simp add: ce)
      ultimately show ?thesis by simp
    qed
    with l show "\<exists>lvl. map_of item_levels x = Some lvl \<and>
             (\<forall>sh \<in> set (stakeholders meta).
                has_key sh widths \<and> has_key sh lane_ids \<and> get_count counts sh lvl \<noteq> 0)"
      by blast
  qed
  from fold_place_item_inv [OF env i0, of U tt "[]"] obtain st1 placed1
    where pl: "fold_opt (place_item U tt item_levels widths lane_ids counts) its (st0, [])
             = Some (st1, placed1)"
      and i1: "layout_inv (S \<union> fst ` set its) (occ @ occs_of its) st1" by blast
  have "layout_procedure U tt (m, its) st =
      Some (st1\<lparr>current_x := current_x st + pool_width + inter_pool_gap\<rparr>)"
    using False lv ml cn fl pl
    unfolding st0_def pool_width_def pool_height_def pool_def widths_def shs_def
    by (simp add: layout_procedure_def Let_def)
  with i1 show ?thesis by (simp add: layout_inv_current_x)
qed

lemma item_entries_simps [simp]:
  "item_entries [] = []"
  "item_entries ((m, its) # sd) = its @ item_entries sd"
  by (simp_all add: item_entries_def)

lemma fold_layout_procedure_inv:
  assumes "\<forall>(m, its) \<in> set sd. distinct (map fst its)" and "layout_inv S occ st"
  shows "\<exists>st1. fold_opt (layout_procedure U tt) sd st = Some st1 \<and>
           layout_inv (S \<union> fst ` set (item_entries sd)) (occ @ occs_of (item_entries sd)) st1"
  using assms
proof (induction sd arbitrary: S occ st)
  case Nil
  then show ?case by simp
next
  case (Cons p sd)
  obtain m its where p: "p = (m, its)" by (cases p) auto
  from Cons.prems(1) p have d: "distinct (map fst its)"
    and r: "\<forall>(m, its) \<in> set sd. distinct (map fst its)" by auto
  from layout_procedure_inv [OF d Cons.prems(2), of U tt m] obtain st1
    where a: "layout_procedure U tt (m, its) st = Some st1"
      and b: "layout_inv (S \<union> fst ` set its) (occ @ occs_of its) st1" by blast
  from Cons.IH [OF r b] obtain st2
    where c: "fold_opt (layout_procedure U tt) sd st1 = Some st2"
      and e: "layout_inv ((S \<union> fst ` set its) \<union> fst ` set (item_entries sd))
                ((occ @ occs_of its) @ occs_of (item_entries sd)) st2" by blast
  from a c p have "fold_opt (layout_procedure U tt) (p # sd) st = Some st2" by simp
  moreover from e p have "layout_inv (S \<union> fst ` set (item_entries (p # sd)))
      (occ @ occs_of (item_entries (p # sd))) st2"
    by (simp add: Un_assoc image_Un)
  ultimately show ?case by blast
qed

fun edge_ends :: "cell \<Rightarrow> string \<times> string" where
  "edge_ends (Edge i s t) = (s, t)"
| "edge_ends c = ([], [])"

definition entries_of :: "data_struct \<Rightarrow> string \<Rightarrow> items" where
  "entries_of sd x = filter (\<lambda>e. fst e = x) (item_entries sd)"

text \<open>
  The input is well formed when each \<open>items\<close> dictionary has distinct keys, as a Python
  dictionary has.
\<close>

definition wf_data :: "data_struct \<Rightarrow> bool" where
  "wf_data sd = (\<forall>(m, its) \<in> set sd. distinct (map fst its))"

lemma layout_inv_initial: "layout_inv {} [] initial_layout"
  by (simp add: layout_inv_def initial_layout_def)

lemma concat_map_product:
  "concat (map (\<lambda>a. map (\<lambda>b. (a, b)) ys) xs) = List.product xs ys"
  by (induction xs) simp_all

lemma edge_pairs_product:
  assumes "map_of idm u = Some cu" "map_of idm v = Some cv"
  shows "edge_pairs idm u v = List.product (map snd cu) (map snd cv)"
  unfolding edge_pairs_def by (simp only: assms option.case concat_map_product)

lemma edge_pairs_member:
  assumes "(s, t) \<in> set (edge_pairs idm u v)"
  shows "\<exists>cu cv. map_of idm u = Some cu \<and> map_of idm v = Some cv \<and>
           s \<in> snd ` set cu \<and> t \<in> snd ` set cv"
proof (cases "map_of idm u")
  case None
  with assms show ?thesis by (simp add: edge_pairs_def)
next
  case (Some cu)
  show ?thesis
  proof (cases "map_of idm v")
    case None
    with assms Some show ?thesis by (simp add: edge_pairs_def)
  next
    case cv: (Some cv)
    from assms have "(s, t) \<in> set (List.product (map snd cu) (map snd cv))"
      by (simp only: edge_pairs_product [OF Some cv])
    then have "s \<in> snd ` set cu" "t \<in> snd ` set cv" by auto
    with Some cv show ?thesis by blast
  qed
qed

lemma create_drawio_run_inv:
  assumes "wf_data sd"
  shows "\<exists>st0. fold_opt (layout_procedure U tt) sd initial_layout = Some st0 \<and>
           layout_inv (fst ` set (item_entries sd)) (occs_of (item_entries sd)) st0 \<and>
           create_drawio_run U sd tt =
             Some (\<lparr>diagram_id = U 0,
                     cells = root_cells st0 @
                       map (\<lambda>(k, (s, t)). Edge (U (next_uuid st0 + k)) s t)
                         (enumerate 0 (all_edge_pairs (id_map st0) sd))\<rparr>,
                   emit_edges U sd st0) \<and>
           id_map (emit_edges U sd st0) = id_map st0 \<and>
           multi_item_color (emit_edges U sd st0) = multi_item_color st0"
proof -
  from assms have "\<forall>(m, its) \<in> set sd. distinct (map fst its)" by (simp add: wf_data_def)
  from fold_layout_procedure_inv [OF this layout_inv_initial, of U tt] obtain st0
    where a: "fold_opt (layout_procedure U tt) sd initial_layout = Some st0"
      and b: "layout_inv (fst ` set (item_entries sd)) (occs_of (item_entries sd)) st0"
    by auto
  then show ?thesis
    by (simp add: create_drawio_run_def emit_edges_def Let_def)
qed

lemma next_refs_member:
  assumes "(m, its) \<in> set sd" "(u, mu) \<in> set its" "v \<in> set (nxt mu)"
  shows "(u, v) \<in> set (next_refs sd)"
proof -
  let ?f = "\<lambda>(item_id, item_meta). map (\<lambda>target_id. (item_id, target_id)) (nxt item_meta)"
  let ?g = "\<lambda>(milestone_id, its). concat (map ?f its)"
  from assms(3) have "(u, v) \<in> set (?f (u, mu))" by simp
  with assms(2) have "(u, v) \<in> set (concat (map ?f its))"
    unfolding set_concat set_map by blast
  then have "(u, v) \<in> set (?g (m, its))" by simp
  with assms(1) have "(u, v) \<in> set (concat (map ?g sd))"
    unfolding set_concat set_map by blast
  then show ?thesis by (simp only: next_refs_def)
qed

lemma item_entries_member:
  "(m, its) \<in> set sd \<Longrightarrow> e \<in> set its \<Longrightarrow> e \<in> set (item_entries sd)"
  by (force simp: item_entries_def)

lemma filter_occs_of:
  "filter (\<lambda>e. fst e = x) (occs_of its) = occs_of (filter (\<lambda>e. fst e = x) its)"
proof (induction its)
  case Nil
  then show ?case by simp
next
  case (Cons e its)
  obtain y meta where e: "e = (y, meta)" by (cases e) auto
  have "filter (\<lambda>e. fst e = x) (map (Pair y) (stakeholders meta)) =
      (if y = x then map (Pair y) (stakeholders meta) else [])"
    by (induction "stakeholders meta") (auto simp: filter_empty_conv)
  with Cons e show ?case by simp
qed

lemma fold_add_unique_distinct:
  "distinct xs \<Longrightarrow> set xs \<inter> set acc = {} \<Longrightarrow> fold add_unique xs acc = acc @ xs"
  by (induction xs arbitrary: acc) (auto simp: add_unique_def)

lemma snd_occs_of: "snd ` set (occs_of its) = (\<Union>e \<in> set its. set (stakeholders (snd e)))"
proof (induction its)
  case Nil
  then show ?case by simp
next
  case (Cons e its)
  obtain y meta where e: "e = (y, meta)" by (cases e) auto
  have "snd ` Pair y ` set (stakeholders meta) = set (stakeholders meta)"
    by (simp add: image_image)
  with Cons e show ?case by (simp add: image_Un)
qed

lemma set_lanes:
  "set (lanes (occs_of its) x) =
     (\<Union>e \<in> set (filter (\<lambda>e. fst e = x) its). set (stakeholders (snd e)))"
  by (simp add: lanes_def set_fold_add_unique filter_occs_of snd_occs_of)

lemma lanes_unique:
  assumes "filter (\<lambda>e. fst e = x) its = [(x, meta)]" "distinct (stakeholders meta)"
  shows "lanes (occs_of its) x = stakeholders meta"
proof -
  have "map snd (map (Pair x) (stakeholders meta)) = stakeholders meta"
    by (simp add: comp_def)
  with assms show ?thesis
    by (simp add: lanes_def filter_occs_of fold_add_unique_distinct)
qed

text \<open>A sequence of identifiers for the examples: the \<open>n\<close>-th is \<open>n\<close> letters long.\<close>

definition uuid_example :: "nat \<Rightarrow> string" where
  "uuid_example n = replicate n (CHR ''u'')"

lemma item_entries_owner:
  "e \<in> set (item_entries sd) \<Longrightarrow> \<exists>m its. (m, its) \<in> set sd \<and> e \<in> set its"
proof -
  assume "e \<in> set (item_entries sd)"
  then obtain p where "p \<in> set sd" "e \<in> set (snd p)" by (auto simp: item_entries_def)
  then have "(fst p, snd p) \<in> set sd \<and> e \<in> set (snd p)" by simp
  then show ?thesis by blast
qed

lemma edge_ends_enumerate:
  "map edge_ends (map (\<lambda>(k, (s, t)). Edge (g k) s t) (enumerate n ps)) = ps"
  by (induction ps arbitrary: n) auto

lemma is_edge_enumerate:
  "\<forall>c \<in> set (map (\<lambda>(k, (s, t)). Edge (g k) s t) (enumerate n ps)). is_edge c"
  by (induction ps arbitrary: n) auto

lemma create_drawio_run_edges:
  assumes "wf_data sd"
  obtains doc st pre es where
    "create_drawio_run U sd tt = Some (doc, st)" "cells doc = pre @ es"
    "\<forall>c \<in> set pre. \<not> is_edge c" "\<forall>c \<in> set es. is_edge c"
    "map edge_ends es = all_edge_pairs (id_map st) sd"
    "fst ` set (id_map st) = fst ` set (item_entries sd)"
    "\<forall>x copies. map_of (id_map st) x = Some copies \<longrightarrow>
              map fst copies = lanes (occs_of (item_entries sd)) x \<and>
              snd ` set copies \<subseteq> node_ids pre"
proof -
  from create_drawio_run_inv [OF assms, of U tt] obtain st0
    where all: "fold_opt (layout_procedure U tt) sd initial_layout = Some st0 \<and>
           layout_inv (fst ` set (item_entries sd)) (occs_of (item_entries sd)) st0 \<and>
           create_drawio_run U sd tt =
             Some (\<lparr>diagram_id = U 0,
                     cells = root_cells st0 @
                       map (\<lambda>(k, (s, t)). Edge (U (next_uuid st0 + k)) s t)
                         (enumerate 0 (all_edge_pairs (id_map st0) sd))\<rparr>,
                   emit_edges U sd st0) \<and>
           id_map (emit_edges U sd st0) = id_map st0 \<and>
           multi_item_color (emit_edges U sd st0) = multi_item_color st0" ..
  let ?ps = "all_edge_pairs (id_map st0) sd"
  let ?es = "map (\<lambda>(k, (s, t)). Edge (U (next_uuid st0 + k)) s t) (enumerate 0 ?ps)"
  let ?doc = "\<lparr>diagram_id = U 0, cells = root_cells st0 @ ?es\<rparr>"
  from all have inv: "layout_inv (fst ` set (item_entries sd)) (occs_of (item_entries sd)) st0"
    by (elim conjE)
  from all have run: "create_drawio_run U sd tt = Some (?doc, emit_edges U sd st0)"
    by (elim conjE)
  from all have idm: "id_map (emit_edges U sd st0) = id_map st0" by (elim conjE)
  from inv have i: "fst ` set (id_map st0) = fst ` set (item_entries sd) \<and>
      fst ` set (occs_of (item_entries sd)) \<subseteq> fst ` set (item_entries sd) \<and>
      (\<forall>x copies. map_of (id_map st0) x = Some copies \<longrightarrow>
         map fst copies = lanes (occs_of (item_entries sd)) x \<and>
         snd ` set copies \<subseteq> node_ids (root_cells st0)) \<and>
      (\<forall>c \<in> set (root_cells st0). \<not> is_edge c)"
    unfolding layout_inv_def .
  show thesis
  proof (rule that [of ?doc "emit_edges U sd st0" "root_cells st0" ?es], unfold idm)
    show "create_drawio_run U sd tt = Some (?doc, emit_edges U sd st0)" by (rule run)
    show "cells ?doc = root_cells st0 @ ?es" by simp
    show "\<forall>c \<in> set (root_cells st0). \<not> is_edge c" using i by (elim conjE)
    show "\<forall>c \<in> set ?es. is_edge c" by (rule is_edge_enumerate)
    show "map edge_ends ?es = all_edge_pairs (id_map st0) sd" by (rule edge_ends_enumerate)
    show "fst ` set (id_map st0) = fst ` set (item_entries sd)" using i by (elim conjE)
    show "\<forall>x copies. map_of (id_map st0) x = Some copies \<longrightarrow>
           map fst copies = lanes (occs_of (item_entries sd)) x \<and>
           snd ` set copies \<subseteq> node_ids (root_cells st0)" using i by (elim conjE)
  qed
qed

lemma all_edge_pairs_member:
  "p \<in> set (all_edge_pairs idm sd) \<Longrightarrow> \<exists>u v. p \<in> set (edge_pairs idm u v)"
  by (auto simp: all_edge_pairs_def)

lemma all_edge_pairs_subset:
  assumes "(u, v) \<in> set (next_refs sd)"
  shows "set (edge_pairs idm u v) \<subseteq> set (all_edge_pairs idm sd)"
proof
  fix p assume "p \<in> set (edge_pairs idm u v)"
  with assms have "\<exists>r \<in> set (next_refs sd). p \<in> set (case r of (i, t) \<Rightarrow> edge_pairs idm i t)"
    by (intro bexI [of _ "(u, v)"]) simp_all
  then show "p \<in> set (all_edge_pairs idm sd)"
    unfolding all_edge_pairs_def set_concat set_map by blast
qed

lemma filter_is_edge_split:
  "\<forall>c \<in> set pre. \<not> is_edge c \<Longrightarrow> \<forall>c \<in> set es. is_edge c \<Longrightarrow>
     filter is_edge (pre @ es) = es"
  by (simp add: filter_empty_conv)

lemma edge_ends_in_nodes:
  assumes m: "map edge_ends es = all_edge_pairs idm sd"
    and v: "\<forall>x copies. map_of idm x = Some copies \<longrightarrow> P x copies \<and> snd ` set copies \<subseteq> N"
    and c: "c \<in> set es"
  shows "fst (edge_ends c) \<in> N \<and> snd (edge_ends c) \<in> N"
proof -
  from c have "edge_ends c \<in> set (map edge_ends es)" by simp
  with m have "(fst (edge_ends c), snd (edge_ends c)) \<in> set (all_edge_pairs idm sd)"
    by simp
  from all_edge_pairs_member [OF this] obtain u w
    where "(fst (edge_ends c), snd (edge_ends c)) \<in> set (edge_pairs idm u w)" by blast
  from edge_pairs_member [OF this] obtain cu cv
    where a: "map_of idm u = Some cu" "map_of idm w = Some cv"
      and b: "fst (edge_ends c) \<in> snd ` set cu" "snd (edge_ends c) \<in> snd ` set cv" by blast
  from v a have "snd ` set cu \<subseteq> N" "snd ` set cv \<subseteq> N" by blast+
  with b show ?thesis by (simp add: subset_iff)
qed

lemma edge_pairs_dangling:
  assumes "fst ` set idm = K" "target_id \<notin> K"
  shows "edge_pairs idm item_id target_id = []"
proof -
  from assms have "map_of idm target_id = None" by (simp add: map_of_eq_None_iff)
  then show ?thesis by (simp add: edge_pairs_def split: option.splits)
qed

text \<open>
  Claim C4.  For well-formed input \<open>create_drawio_xml\<close> raises no error and returns a
  document whose cells are a first part without edges followed by the edge cells; the
  source and the target of every edge cell are identifiers of node cells of the first
  part, so they are defined earlier in the document.  A \<open>next\<close> entry whose target is not
  an item of any procedure contributes no edge.
\<close>

theorem edges_reference_earlier_nodes:
  assumes "wf_data sd"
  shows "\<exists>doc st pre es.
           create_drawio_run U sd tt = Some (doc, st) \<and>
           create_drawio_xml U sd tt = Some doc \<and>
           cells doc = pre @ es \<and>
           (\<forall>c \<in> set pre. \<not> is_edge c) \<and>
           (\<forall>c \<in> set es. is_edge c \<and> fst (edge_ends c) \<in> node_ids pre \<and>
                          snd (edge_ends c) \<in> node_ids pre) \<and>
           map edge_ends es = all_edge_pairs (id_map st) sd \<and>
           (\<forall>item_id target_id. target_id \<notin> fst ` set (item_entries sd) \<longrightarrow>
              edge_pairs (id_map st) item_id target_id = [])"
proof -
  obtain doc st pre es where
    run: "create_drawio_run U sd tt = Some (doc, st)" and c: "cells doc = pre @ es"
    and p: "\<forall>c \<in> set pre. \<not> is_edge c" and e: "\<forall>c \<in> set es. is_edge c"
    and m: "map edge_ends es = all_edge_pairs (id_map st) sd"
    and k: "fst ` set (id_map st) = fst ` set (item_entries sd)"
    and v: "\<forall>x copies. map_of (id_map st) x = Some copies \<longrightarrow>
              map fst copies = lanes (occs_of (item_entries sd)) x \<and>
              snd ` set copies \<subseteq> node_ids pre"
    by (rule create_drawio_run_edges [OF assms, of U tt])
  have ends: "\<forall>c \<in> set es. is_edge c \<and> fst (edge_ends c) \<in> node_ids pre \<and>
                          snd (edge_ends c) \<in> node_ids pre"
  proof
    fix c assume a: "c \<in> set es"
    with e have "is_edge c" by simp
    with edge_ends_in_nodes [OF m v a]
    show "is_edge c \<and> fst (edge_ends c) \<in> node_ids pre \<and> snd (edge_ends c) \<in> node_ids pre"
      by simp
  qed
  have dangling: "\<forall>item_id target_id. target_id \<notin> fst ` set (item_entries sd) \<longrightarrow>
              edge_pairs (id_map st) item_id target_id = []"
    using edge_pairs_dangling [OF k] by simp
  from run have x: "create_drawio_xml U sd tt = Some doc" by (simp add: create_drawio_xml_def)
  from run x c p ends m dangling
  have "create_drawio_run U sd tt = Some (doc, st) \<and>
           create_drawio_xml U sd tt = Some doc \<and>
           cells doc = pre @ es \<and>
           (\<forall>c \<in> set pre. \<not> is_edge c) \<and>
           (\<forall>c \<in> set es. is_edge c \<and> fst (edge_ends c) \<in> node_ids pre \<and>
                          snd (edge_ends c) \<in> node_ids pre) \<and>
           map edge_ends es = all_edge_pairs (id_map st) sd \<and>
           (\<forall>item_id target_id. target_id \<notin> fst ` set (item_entries sd) \<longrightarrow>
              edge_pairs (id_map st) item_id target_id = [])"
    by (intro conjI)
  then show ?thesis by (intro exI)
qed

lemma create_drawio_run_copies:
  assumes "wf_data sd"
  obtains doc st where
    "create_drawio_run U sd tt = Some (doc, st)"
    "map edge_ends (filter is_edge (cells doc)) = all_edge_pairs (id_map st) sd"
    "\<forall>x \<in> fst ` set (item_entries sd). \<exists>copies.
        map_of (id_map st) x = Some copies \<and>
        map fst copies = lanes (occs_of (item_entries sd)) x \<and>
        snd ` set copies \<subseteq> node_ids (cells doc)"
proof -
  obtain doc st pre es where
    run: "create_drawio_run U sd tt = Some (doc, st)" and c: "cells doc = pre @ es"
    and p: "\<forall>c \<in> set pre. \<not> is_edge c" and e: "\<forall>c \<in> set es. is_edge c"
    and m: "map edge_ends es = all_edge_pairs (id_map st) sd"
    and k: "fst ` set (id_map st) = fst ` set (item_entries sd)"
    and v: "\<forall>x copies. map_of (id_map st) x = Some copies \<longrightarrow>
              map fst copies = lanes (occs_of (item_entries sd)) x \<and>
              snd ` set copies \<subseteq> node_ids pre"
    by (rule create_drawio_run_edges [OF assms, of U tt])
  from filter_is_edge_split [OF p e] c m
  have a: "map edge_ends (filter is_edge (cells doc)) = all_edge_pairs (id_map st) sd"
    by simp
  have b: "\<forall>x \<in> fst ` set (item_entries sd). \<exists>copies.
        map_of (id_map st) x = Some copies \<and>
        map fst copies = lanes (occs_of (item_entries sd)) x \<and>
        snd ` set copies \<subseteq> node_ids (cells doc)"
  proof
    fix x assume "x \<in> fst ` set (item_entries sd)"
    with k have "map_of (id_map st) x \<noteq> None" by (simp add: map_of_eq_None_iff)
    then obtain copies where l: "map_of (id_map st) x = Some copies" by auto
    with v have "map fst copies = lanes (occs_of (item_entries sd)) x"
      "snd ` set copies \<subseteq> node_ids pre" by blast+
    moreover have "node_ids pre \<subseteq> node_ids (cells doc)" by (simp add: c node_ids_append)
    ultimately have "map_of (id_map st) x = Some copies \<and>
        map fst copies = lanes (occs_of (item_entries sd)) x \<and>
        snd ` set copies \<subseteq> node_ids (cells doc)" using l by (simp add: subset_iff)
    then show "\<exists>copies. map_of (id_map st) x = Some copies \<and>
        map fst copies = lanes (occs_of (item_entries sd)) x \<and>
        snd ` set copies \<subseteq> node_ids (cells doc)" ..
  qed
  from run a b show thesis by (rule that)
qed

lemma entries_of_member: "entries_of sd x = [(x, meta)] \<Longrightarrow> (x, meta) \<in> set (item_entries sd)"
proof -
  assume "entries_of sd x = [(x, meta)]"
  then have "(x, meta) \<in> set (filter (\<lambda>e. fst e = x) (item_entries sd))"
    by (simp add: entries_of_def)
  then show ?thesis by simp
qed

lemma next_refs_entry:
  assumes "(u, mu) \<in> set (item_entries sd)" "v \<in> set (nxt mu)"
  shows "(u, v) \<in> set (next_refs sd)"
proof -
  from item_entries_owner [OF assms(1)] obtain m its
    where "(m, its) \<in> set sd" "(u, mu) \<in> set its" by blast
  from next_refs_member [OF this assms(2)] show ?thesis .
qed

text \<open>
  Claim C3, as amended.  Let \<open>v\<close> occur in the \<open>next\<close> list of the item \<open>u\<close>, let each of
  the two identifiers have one entry in the whole graph, and let their stakeholder
  lists be free of duplicates.  Then \<open>id_map\<close> holds one node copy of \<open>u\<close> per stakeholder
  of \<open>u\<close> and one of \<open>v\<close> per stakeholder of \<open>v\<close>, the edges emitted for the occurrence are
  the full product of the copies, and their number is
  \<open>|stakeholders(u)| * |stakeholders(v)|\<close>.  The edge cells of the document are the edges
  of all occurrences, in order.
\<close>

theorem edges_per_successor:
  assumes wf: "wf_data sd"
    and u: "entries_of sd u = [(u, mu)]" and v: "entries_of sd v = [(v, mv)]"
    and du: "distinct (stakeholders mu)" and dv: "distinct (stakeholders mv)"
    and n: "v \<in> set (nxt mu)"
  shows "\<exists>doc st cu cv.
           create_drawio_run U sd tt = Some (doc, st) \<and>
           map edge_ends (filter is_edge (cells doc)) = all_edge_pairs (id_map st) sd \<and>
           (u, v) \<in> set (next_refs sd) \<and>
           map_of (id_map st) u = Some cu \<and> map fst cu = stakeholders mu \<and>
           map_of (id_map st) v = Some cv \<and> map fst cv = stakeholders mv \<and>
           edge_pairs (id_map st) u v = List.product (map snd cu) (map snd cv) \<and>
           length (edge_pairs (id_map st) u v) =
             length (stakeholders mu) * length (stakeholders mv)"
proof -
  obtain doc st where
    run: "create_drawio_run U sd tt = Some (doc, st)"
    and e: "map edge_ends (filter is_edge (cells doc)) = all_edge_pairs (id_map st) sd"
    and k: "\<forall>x \<in> fst ` set (item_entries sd). \<exists>copies.
        map_of (id_map st) x = Some copies \<and>
        map fst copies = lanes (occs_of (item_entries sd)) x \<and>
        snd ` set copies \<subseteq> node_ids (cells doc)"
    by (rule create_drawio_run_copies [OF wf, of U tt])
  from entries_of_member [OF u] have ue: "(u, mu) \<in> set (item_entries sd)" .
  from entries_of_member [OF v] have ve: "(v, mv) \<in> set (item_entries sd)" .
  from ue have "u \<in> fst ` set (item_entries sd)" by force
  with k obtain cu where cu: "map_of (id_map st) u = Some cu"
    "map fst cu = lanes (occs_of (item_entries sd)) u" by blast
  from ve have "v \<in> fst ` set (item_entries sd)" by force
  with k obtain cv where cv: "map_of (id_map st) v = Some cv"
    "map fst cv = lanes (occs_of (item_entries sd)) v" by blast
  from u du have lu: "lanes (occs_of (item_entries sd)) u = stakeholders mu"
    by (intro lanes_unique) (simp_all add: entries_of_def)
  from v dv have lv: "lanes (occs_of (item_entries sd)) v = stakeholders mv"
    by (intro lanes_unique) (simp_all add: entries_of_def)
  from cu(2) lu have ku: "map fst cu = stakeholders mu" by simp
  from cv(2) lv have kv: "map fst cv = stakeholders mv" by simp
  have pr: "edge_pairs (id_map st) u v = List.product (map snd cu) (map snd cv)"
    by (rule edge_pairs_product [OF cu(1) cv(1)])
  have "length (map fst cu) = length (stakeholders mu)" "length (map fst cv) = length (stakeholders mv)"
    using ku kv by simp_all
  then have len: "length (edge_pairs (id_map st) u v) =
             length (stakeholders mu) * length (stakeholders mv)"
    by (simp add: pr)
  have nr: "(u, v) \<in> set (next_refs sd)" by (rule next_refs_entry [OF ue n])
  from run e nr cu(1) ku cv(1) kv pr len
  have "create_drawio_run U sd tt = Some (doc, st) \<and>
           map edge_ends (filter is_edge (cells doc)) = all_edge_pairs (id_map st) sd \<and>
           (u, v) \<in> set (next_refs sd) \<and>
           map_of (id_map st) u = Some cu \<and> map fst cu = stakeholders mu \<and>
           map_of (id_map st) v = Some cv \<and> map fst cv = stakeholders mv \<and>
           edge_pairs (id_map st) u v = List.product (map snd cu) (map snd cv) \<and>
           length (edge_pairs (id_map st) u v) =
             length (stakeholders mu) * length (stakeholders mv)"
    by (intro conjI)
  then show ?thesis by (intro exI)
qed

text \<open>
  Claim C10.  Let \<open>v\<close> occur in the \<open>next\<close> list of an item \<open>u\<close> of one procedure, where
  \<open>v\<close> is not an item of that procedure but an item of another one.  The edge is not in
  the successor graph that the level assigner of \<open>u\<close>'s procedure works on, and the
  emitter still emits edges for it: \<open>id_map\<close>, which all procedures share, holds copies of
  \<open>u\<close> and of \<open>v\<close> for (at least) all their stakeholders, each the identifier of a node cell
  of the document, and the document has an edge for every pair of a copy of \<open>u\<close> and a
  copy of \<open>v\<close>.
\<close>

theorem cross_procedure_edges:
  assumes wf: "wf_data sd"
    and p1: "(m, its) \<in> set sd" and u: "(u, mu) \<in> set its" and n: "v \<in> set (nxt mu)"
    and other: "\<not> has_key v its"
    and p2: "(m2, its2) \<in> set sd" and v: "(v, mv) \<in> set its2"
  shows "(u, v) \<notin> succ_edges its \<and>
         (\<exists>doc st cu cv.
            create_drawio_run U sd tt = Some (doc, st) \<and>
            (u, v) \<in> set (next_refs sd) \<and>
            map_of (id_map st) u = Some cu \<and> set (stakeholders mu) \<subseteq> fst ` set cu \<and>
            map_of (id_map st) v = Some cv \<and> set (stakeholders mv) \<subseteq> fst ` set cv \<and>
            snd ` set cu \<subseteq> node_ids (cells doc) \<and> snd ` set cv \<subseteq> node_ids (cells doc) \<and>
            edge_pairs (id_map st) u v = List.product (map snd cu) (map snd cv) \<and>
            set (List.product (map snd cu) (map snd cv)) \<subseteq>
              set (map edge_ends (filter is_edge (cells doc))) \<and>
            length (edge_pairs (id_map st) u v) = length cu * length cv)"
proof
  from other show "(u, v) \<notin> succ_edges its" by (simp add: succ_edges_def)
next
  obtain doc st where
    run: "create_drawio_run U sd tt = Some (doc, st)"
    and e: "map edge_ends (filter is_edge (cells doc)) = all_edge_pairs (id_map st) sd"
    and k: "\<forall>x \<in> fst ` set (item_entries sd). \<exists>copies.
        map_of (id_map st) x = Some copies \<and>
        map fst copies = lanes (occs_of (item_entries sd)) x \<and>
        snd ` set copies \<subseteq> node_ids (cells doc)"
    by (rule create_drawio_run_copies [OF wf, of U tt])
  from item_entries_member [OF p1 u] have ue: "(u, mu) \<in> set (item_entries sd)" .
  from item_entries_member [OF p2 v] have ve: "(v, mv) \<in> set (item_entries sd)" .
  from ue have "u \<in> fst ` set (item_entries sd)" by force
  with k obtain cu where cu: "map_of (id_map st) u = Some cu"
    "map fst cu = lanes (occs_of (item_entries sd)) u"
    "snd ` set cu \<subseteq> node_ids (cells doc)" by blast
  from ve have "v \<in> fst ` set (item_entries sd)" by force
  with k obtain cv where cv: "map_of (id_map st) v = Some cv"
    "map fst cv = lanes (occs_of (item_entries sd)) v"
    "snd ` set cv \<subseteq> node_ids (cells doc)" by blast
  from ue have "set (stakeholders mu) \<subseteq> set (lanes (occs_of (item_entries sd)) u)"
    by (force simp: set_lanes)
  with cu(2) have su: "set (stakeholders mu) \<subseteq> fst ` set cu" by (metis set_map)
  from ve have "set (stakeholders mv) \<subseteq> set (lanes (occs_of (item_entries sd)) v)"
    by (force simp: set_lanes)
  with cv(2) have sv: "set (stakeholders mv) \<subseteq> fst ` set cv" by (metis set_map)
  have pr: "edge_pairs (id_map st) u v = List.product (map snd cu) (map snd cv)"
    by (rule edge_pairs_product [OF cu(1) cv(1)])
  have nr: "(u, v) \<in> set (next_refs sd)" by (rule next_refs_member [OF p1 u n])
  from all_edge_pairs_subset [OF nr, of "id_map st"] e pr
  have sub: "set (List.product (map snd cu) (map snd cv)) \<subseteq>
              set (map edge_ends (filter is_edge (cells doc)))" by simp
  have len: "length (edge_pairs (id_map st) u v) = length cu * length cv" by (simp add: pr)
  from run nr cu(1) su cv(1) sv cu(3) cv(3) pr sub len
  have "create_drawio_run U sd tt = Some (doc, st) \<and>
            (u, v) \<in> set (next_refs sd) \<and>
            map_of (id_map st) u = Some cu \<and> set (stakeholders mu) \<subseteq> fst ` set cu \<and>
            map_of (id_map st) v = Some cv \<and> set (stakeholders mv) \<subseteq> fst ` set cv \<and>
            snd ` set cu \<subseteq> node_ids (cells doc) \<and> snd ` set cv \<subseteq> node_ids (cells doc) \<and>
            edge_pairs (id_map st) u v = List.product (map snd cu) (map snd cv) \<and>
            set (List.product (map snd cu) (map snd cv)) \<subseteq>
              set (map edge_ends (filter is_edge (cells doc))) \<and>
            length (edge_pairs (id_map st) u v) = length cu * length cv"
    by (intro conjI)
  then show "\<exists>doc st cu cv.
            create_drawio_run U sd tt = Some (doc, st) \<and>
            (u, v) \<in> set (next_refs sd) \<and>
            map_of (id_map st) u = Some cu \<and> set (stakeholders mu) \<subseteq> fst ` set cu \<and>
            map_of (id_map st) v = Some cv \<and> set (stakeholders mv) \<subseteq> fst ` set cv \<and>
            snd ` set cu \<subseteq> node_ids (cells doc) \<and> snd ` set cv \<subseteq> node_ids (cells doc) \<and>
            edge_pairs (id_map st) u v = List.product (map snd cu) (map snd cv) \<and>
            set (List.product (map snd cu) (map snd cv)) \<subseteq>
              set (map edge_ends (filter is_edge (cells doc))) \<and>
            length (edge_pairs (id_map st) u v) = length cu * length cv"
    by (intro exI)
qed

definition example_fanout :: data_struct where
  "example_fanout =
     [(''P'', [(''u'', \<lparr>stakeholders = [''A'', ''B''], nxt = [''v'']\<rparr>),
               (''v'', \<lparr>stakeholders = [''C'', ''D'', ''E''], nxt = []\<rparr>)])]"

definition example_shared_item :: data_struct where
  "example_shared_item =
     [(''P'', [(''X'', \<lparr>stakeholders = [''A''], nxt = [''Y'']\<rparr>),
               (''Y'', \<lparr>stakeholders = [''Unassigned''], nxt = []\<rparr>)]),
      (''Q'', [(''X'', \<lparr>stakeholders = [''B''], nxt = []\<rparr>)])]"

definition example_dangling :: data_struct where
  "example_dangling =
     [(''P'', [(''a'', \<lparr>stakeholders = [''L''], nxt = [''b'', ''zz'']\<rparr>),
               (''b'', \<lparr>stakeholders = [''L''], nxt = []\<rparr>)])]"

definition example_cross :: data_struct where
  "example_cross =
     [(''P'', [(''a'', \<lparr>stakeholders = [''L''], nxt = [''b'']\<rparr>)]),
      (''Q'', [(''b'', \<lparr>stakeholders = [''M'', ''N''], nxt = []\<rparr>)])]"

definition edge_count :: "(document \<times> layout_state) option \<Rightarrow> nat option" where
  "edge_count r = map_option (\<lambda>(doc, st). length (filter is_edge (cells doc))) r"

lemma example_fanout_edges:
  "edge_count (create_drawio_run uuid_example example_fanout []) = Some 6"
  by code_simp

lemma example_shared_item_edges:
  "edge_count (create_drawio_run uuid_example example_shared_item []) = Some 2"
  by code_simp

lemma example_dangling_edges:
  "edge_count (create_drawio_run uuid_example example_dangling []) = Some 1"
  by code_simp

lemma example_cross_edges:
  "edge_count (create_drawio_run uuid_example example_cross []) = Some 2"
  by code_simp

lemma example_shared_item_parsed:
  "parse_data ''P -- hasSequencedItem --> X\<newline>X -- hasStakeholder --> A\<newline>X -- hasNext --> Y\<newline>P -- hasSequencedItem --> Y\<newline>Q -- hasSequencedItem --> X\<newline>X -- hasStakeholder --> B''
     = Some (example_shared_item, [])"
  by code_simp

theorem edges_per_successor_witness:
  "wf_data example_fanout \<and>
   entries_of example_fanout ''u'' = [(''u'', \<lparr>stakeholders = [''A'', ''B''], nxt = [''v'']\<rparr>)] \<and>
   entries_of example_fanout ''v'' = [(''v'', \<lparr>stakeholders = [''C'', ''D'', ''E''], nxt = []\<rparr>)] \<and>
   (\<exists>doc st. create_drawio_run uuid_example example_fanout [] = Some (doc, st) \<and>
      length (edge_pairs (id_map st) ''u'' ''v'') = 6 \<and>
      length (filter is_edge (cells doc)) = 6)"
proof -
  have wf: "wf_data example_fanout" by code_simp
  have u: "entries_of example_fanout ''u'' = [(''u'', \<lparr>stakeholders = [''A'', ''B''], nxt = [''v'']\<rparr>)]"
    by code_simp
  have v: "entries_of example_fanout ''v'' = [(''v'', \<lparr>stakeholders = [''C'', ''D'', ''E''], nxt = []\<rparr>)]"
    by code_simp
  have du: "distinct (stakeholders \<lparr>stakeholders = [''A'', ''B''], nxt = [''v'']\<rparr>)" by simp
  have dv: "distinct (stakeholders \<lparr>stakeholders = [''C'', ''D'', ''E''], nxt = []\<rparr>)" by simp
  have n: "''v'' \<in> set (nxt \<lparr>stakeholders = [''A'', ''B''], nxt = [''v'']\<rparr>)" by simp
  from edges_per_successor [OF wf u v du dv n, of uuid_example "[]"] obtain doc st cu cv
    where all: "create_drawio_run uuid_example example_fanout [] = Some (doc, st) \<and>
           map edge_ends (filter is_edge (cells doc)) = all_edge_pairs (id_map st) example_fanout \<and>
           (''u'', ''v'') \<in> set (next_refs example_fanout) \<and>
           map_of (id_map st) ''u'' = Some cu \<and>
           map fst cu = stakeholders \<lparr>stakeholders = [''A'', ''B''], nxt = [''v'']\<rparr> \<and>
           map_of (id_map st) ''v'' = Some cv \<and>
           map fst cv = stakeholders \<lparr>stakeholders = [''C'', ''D'', ''E''], nxt = []\<rparr> \<and>
           edge_pairs (id_map st) ''u'' ''v'' = List.product (map snd cu) (map snd cv) \<and>
           length (edge_pairs (id_map st) ''u'' ''v'') =
             length (stakeholders \<lparr>stakeholders = [''A'', ''B''], nxt = [''v'']\<rparr>) *
             length (stakeholders \<lparr>stakeholders = [''C'', ''D'', ''E''], nxt = []\<rparr>)"
    by (elim exE) (rule that)
  from all have run: "create_drawio_run uuid_example example_fanout [] = Some (doc, st)"
    by (elim conjE)
  from all have len: "length (edge_pairs (id_map st) ''u'' ''v'') =
             length (stakeholders \<lparr>stakeholders = [''A'', ''B''], nxt = [''v'']\<rparr>) *
             length (stakeholders \<lparr>stakeholders = [''C'', ''D'', ''E''], nxt = []\<rparr>)"
    by (elim conjE)
  from len have l6: "length (edge_pairs (id_map st) ''u'' ''v'') = 6" by simp
  from example_fanout_edges run have l7: "length (filter is_edge (cells doc)) = 6"
    by (simp add: edge_count_def)
  from run l6 l7 have "create_drawio_run uuid_example example_fanout [] = Some (doc, st) \<and>
      length (edge_pairs (id_map st) ''u'' ''v'') = 6 \<and>
      length (filter is_edge (cells doc)) = 6" by (intro conjI)
  then have "\<exists>doc st. create_drawio_run uuid_example example_fanout [] = Some (doc, st) \<and>
      length (edge_pairs (id_map st) ''u'' ''v'') = 6 \<and>
      length (filter is_edge (cells doc)) = 6" by (intro exI)
  with wf u v show ?thesis by (intro conjI)
qed

text \<open>
  Claim C3 as stated fails where an item identifier is entered under two procedures,
  which \<open>parse_data\<close> produces from the text below: \<open>id_map["X"]\<close> collects the copies of
  both entries, and the one \<open>next\<close> reference \<open>X \<rightarrow> Y\<close>, between an entry with one
  stakeholder and an item with one stakeholder, is rendered as two edges.
\<close>

theorem edges_per_successor_counterexample:
  "parse_data ''P -- hasSequencedItem --> X\<newline>X -- hasStakeholder --> A\<newline>X -- hasNext --> Y\<newline>P -- hasSequencedItem --> Y\<newline>Q -- hasSequencedItem --> X\<newline>X -- hasStakeholder --> B''
     = Some (example_shared_item, []) \<and>
   next_refs example_shared_item = [(''X'', ''Y'')] \<and>
   map_of (hd (map snd example_shared_item)) ''X'' = Some \<lparr>stakeholders = [''A''], nxt = [''Y'']\<rparr> \<and>
   map_of (hd (map snd example_shared_item)) ''Y'' = Some \<lparr>stakeholders = [''Unassigned''], nxt = []\<rparr> \<and>
   edge_count (create_drawio_run uuid_example example_shared_item []) = Some 2 \<and>
   length [''A''] * length [''Unassigned''] \<noteq> (2 :: nat)"
proof -
  have "next_refs example_shared_item = [(''X'', ''Y'')]" by code_simp
  moreover have "map_of (hd (map snd example_shared_item)) ''X'' = Some \<lparr>stakeholders = [''A''], nxt = [''Y'']\<rparr>"
    by code_simp
  moreover have "map_of (hd (map snd example_shared_item)) ''Y'' = Some \<lparr>stakeholders = [''Unassigned''], nxt = []\<rparr>"
    by code_simp
  ultimately show ?thesis
    using example_shared_item_parsed example_shared_item_edges by simp
qed

theorem edges_reference_earlier_nodes_witness:
  "wf_data example_dangling \<and> ''zz'' \<notin> fst ` set (item_entries example_dangling) \<and>
   (\<exists>doc st pre es.
      create_drawio_run uuid_example example_dangling [] = Some (doc, st) \<and>
      cells doc = pre @ es \<and> length es = 1 \<and>
      (\<forall>c \<in> set es. fst (edge_ends c) \<in> node_ids pre \<and> snd (edge_ends c) \<in> node_ids pre) \<and>
      edge_pairs (id_map st) ''a'' ''zz'' = [])"
proof -
  have wf: "wf_data example_dangling" by code_simp
  have z: "''zz'' \<notin> fst ` set (item_entries example_dangling)"
    by (simp add: item_entries_def example_dangling_def)
  from edges_reference_earlier_nodes [OF wf, of uuid_example "[]"] obtain doc st pre es
    where all: "create_drawio_run uuid_example example_dangling [] = Some (doc, st) \<and>
           create_drawio_xml uuid_example example_dangling [] = Some doc \<and>
           cells doc = pre @ es \<and>
           (\<forall>c \<in> set pre. \<not> is_edge c) \<and>
           (\<forall>c \<in> set es. is_edge c \<and> fst (edge_ends c) \<in> node_ids pre \<and>
                          snd (edge_ends c) \<in> node_ids pre) \<and>
           map edge_ends es = all_edge_pairs (id_map st) example_dangling \<and>
           (\<forall>item_id target_id. target_id \<notin> fst ` set (item_entries example_dangling) \<longrightarrow>
              edge_pairs (id_map st) item_id target_id = [])"
    by (elim exE) (rule that)
  from all have run: "create_drawio_run uuid_example example_dangling [] = Some (doc, st)"
    by (elim conjE)
  from all have c: "cells doc = pre @ es" by (elim conjE)
  from all have p: "\<forall>c \<in> set pre. \<not> is_edge c" by (elim conjE)
  from all have e: "\<forall>c \<in> set es. is_edge c \<and> fst (edge_ends c) \<in> node_ids pre \<and>
                          snd (edge_ends c) \<in> node_ids pre" by (elim conjE)
  from all have d: "\<forall>item_id target_id. target_id \<notin> fst ` set (item_entries example_dangling) \<longrightarrow>
              edge_pairs (id_map st) item_id target_id = []" by (elim conjE)
  from e have e1: "\<forall>c \<in> set es. is_edge c" by simp
  from e have e2: "\<forall>c \<in> set es. fst (edge_ends c) \<in> node_ids pre \<and> snd (edge_ends c) \<in> node_ids pre"
    by simp
  from filter_is_edge_split [OF p e1] c have "filter is_edge (cells doc) = es" by simp
  with example_dangling_edges run have l: "length es = 1" by (simp add: edge_count_def)
  from d z have dz: "edge_pairs (id_map st) ''a'' ''zz'' = []" by simp
  from run c l e2 dz have "create_drawio_run uuid_example example_dangling [] = Some (doc, st) \<and>
      cells doc = pre @ es \<and> length es = 1 \<and>
      (\<forall>c \<in> set es. fst (edge_ends c) \<in> node_ids pre \<and> snd (edge_ends c) \<in> node_ids pre) \<and>
      edge_pairs (id_map st) ''a'' ''zz'' = []" by (intro conjI)
  then have "\<exists>doc st pre es.
      create_drawio_run uuid_example example_dangling [] = Some (doc, st) \<and>
      cells doc = pre @ es \<and> length es = 1 \<and>
      (\<forall>c \<in> set es. fst (edge_ends c) \<in> node_ids pre \<and> snd (edge_ends c) \<in> node_ids pre) \<and>
      edge_pairs (id_map st) ''a'' ''zz'' = []" by (intro exI)
  with wf z show ?thesis by (intro conjI)
qed

theorem cross_procedure_edges_witness:
  "(''a'', ''b'') \<notin> succ_edges [(''a'', \<lparr>stakeholders = [''L''], nxt = [''b'']\<rparr>)] \<and>
   \<not> has_key ''b'' [(''a'', \<lparr>stakeholders = [''L''], nxt = [''b'']\<rparr>)] \<and>
   (\<exists>doc st cu cv.
      create_drawio_run uuid_example example_cross [] = Some (doc, st) \<and>
      map_of (id_map st) ''a'' = Some cu \<and> map_of (id_map st) ''b'' = Some cv \<and>
      edge_pairs (id_map st) ''a'' ''b'' = List.product (map snd cu) (map snd cv) \<and>
      length (filter is_edge (cells doc)) = 2)"
proof -
  have wf: "wf_data example_cross" by code_simp
  have p1: "(''P'', [(''a'', \<lparr>stakeholders = [''L''], nxt = [''b'']\<rparr>)]) \<in> set example_cross"
    by (simp add: example_cross_def)
  have u: "(''a'', \<lparr>stakeholders = [''L''], nxt = [''b'']\<rparr>)
      \<in> set [(''a'', \<lparr>stakeholders = [''L''], nxt = [''b'']\<rparr>)]" by simp
  have n: "''b'' \<in> set (nxt \<lparr>stakeholders = [''L''], nxt = [''b'']\<rparr>)" by simp
  have other: "\<not> has_key ''b'' [(''a'', \<lparr>stakeholders = [''L''], nxt = [''b'']\<rparr>)]"
    by (simp add: has_key_def)
  have p2: "(''Q'', [(''b'', \<lparr>stakeholders = [''M'', ''N''], nxt = []\<rparr>)]) \<in> set example_cross"
    by (simp add: example_cross_def)
  have v: "(''b'', \<lparr>stakeholders = [''M'', ''N''], nxt = []\<rparr>)
      \<in> set [(''b'', \<lparr>stakeholders = [''M'', ''N''], nxt = []\<rparr>)]" by simp
  note t = cross_procedure_edges [OF wf p1 u n other p2 v, of uuid_example "[]"]
  from t have a: "(''a'', ''b'') \<notin> succ_edges [(''a'', \<lparr>stakeholders = [''L''], nxt = [''b'']\<rparr>)]"
    by (elim conjE)
  from t have "\<exists>doc st cu cv.
            create_drawio_run uuid_example example_cross [] = Some (doc, st) \<and>
            (''a'', ''b'') \<in> set (next_refs example_cross) \<and>
            map_of (id_map st) ''a'' = Some cu \<and>
            set (stakeholders \<lparr>stakeholders = [''L''], nxt = [''b'']\<rparr>) \<subseteq> fst ` set cu \<and>
            map_of (id_map st) ''b'' = Some cv \<and>
            set (stakeholders \<lparr>stakeholders = [''M'', ''N''], nxt = []\<rparr>) \<subseteq> fst ` set cv \<and>
            snd ` set cu \<subseteq> node_ids (cells doc) \<and> snd ` set cv \<subseteq> node_ids (cells doc) \<and>
            edge_pairs (id_map st) ''a'' ''b'' = List.product (map snd cu) (map snd cv) \<and>
            set (List.product (map snd cu) (map snd cv)) \<subseteq>
              set (map edge_ends (filter is_edge (cells doc))) \<and>
            length (edge_pairs (id_map st) ''a'' ''b'') = length cu * length cv"
    by (elim conjE)
  then obtain doc st cu cv
    where all: "create_drawio_run uuid_example example_cross [] = Some (doc, st) \<and>
            (''a'', ''b'') \<in> set (next_refs example_cross) \<and>
            map_of (id_map st) ''a'' = Some cu \<and>
            set (stakeholders \<lparr>stakeholders = [''L''], nxt = [''b'']\<rparr>) \<subseteq> fst ` set cu \<and>
            map_of (id_map st) ''b'' = Some cv \<and>
            set (stakeholders \<lparr>stakeholders = [''M'', ''N''], nxt = []\<rparr>) \<subseteq> fst ` set cv \<and>
            snd ` set cu \<subseteq> node_ids (cells doc) \<and> snd ` set cv \<subseteq> node_ids (cells doc) \<and>
            edge_pairs (id_map st) ''a'' ''b'' = List.product (map snd cu) (map snd cv) \<and>
            set (List.product (map snd cu) (map snd cv)) \<subseteq>
              set (map edge_ends (filter is_edge (cells doc))) \<and>
            length (edge_pairs (id_map st) ''a'' ''b'') = length cu * length cv"
    by (elim exE) (rule that)
  from all have run: "create_drawio_run uuid_example example_cross [] = Some (doc, st)"
    by (elim conjE)
  from all have cu: "map_of (id_map st) ''a'' = Some cu" by (elim conjE)
  from all have cv: "map_of (id_map st) ''b'' = Some cv" by (elim conjE)
  from all have pr: "edge_pairs (id_map st) ''a'' ''b'' = List.product (map snd cu) (map snd cv)"
    by (elim conjE)
  from example_cross_edges run have l: "length (filter is_edge (cells doc)) = 2"
    by (simp add: edge_count_def)
  from run cu cv pr l have "create_drawio_run uuid_example example_cross [] = Some (doc, st) \<and>
      map_of (id_map st) ''a'' = Some cu \<and> map_of (id_map st) ''b'' = Some cv \<and>
      edge_pairs (id_map st) ''a'' ''b'' = List.product (map snd cu) (map snd cv) \<and>
      length (filter is_edge (cells doc)) = 2" by (intro conjI)
  then have "\<exists>doc st cu cv.
      create_drawio_run uuid_example example_cross [] = Some (doc, st) \<and>
      map_of (id_map st) ''a'' = Some cu \<and> map_of (id_map st) ''b'' = Some cv \<and>
      edge_pairs (id_map st) ''a'' ''b'' = List.product (map snd cu) (map snd cv) \<and>
      length (filter is_edge (cells doc)) = 2" by (intro exI)
  with a other show ?thesis by (intro conjI)
qed

end
